theory Spec2Isabelle
  imports Main
begin

section \<open>Audio playback queue (Chat component)\<close>

text \<open>
  The chat view keeps a serialized playback queue in four refs (\<open>audioRef\<close>,
  \<open>isPlayingRef\<close>, \<open>currentItemRef\<close>, \<open>audioQueueRef\<close>) and one piece of React state
  (\<open>playingMsgId\<close>). JavaScript strings are modelled as HOL strings. Queue items are
  JavaScript objects, so each carries the identity it received when it was created by
  \<open>enqueueAndPlay\<close>. A message id is \<open>'welcome'\<close> or a value of
  \<open>crypto.randomUUID()\<close>, numbered in the order of creation. Every \<open>new Audio(url)\<close> is an entry of \<open>elems\<close>; the index is
  the element. \<open>URL.revokeObjectURL\<close> calls are logged, in order, in \<open>revoked\<close>.
\<close>

datatype mid = Welcome | Uuid nat

record item =
  url :: string
  revokeAfter :: bool
  msgId :: "mid option"
  ident :: nat

datatype el_status = Playing | Paused | Stopped

record audio_el =
  src :: string
  status :: el_status
  listening :: bool
  playPending :: bool
  el_next :: item

record playback =
  audioRef :: "nat option"
  isPlayingRef :: bool
  currentItemRef :: "item option"
  audioQueueRef :: "item list"
  playingMsgId :: "mid option"
  elems :: "audio_el list"
  revoked :: "string list"
  nextIdent :: nat

definition startsWith :: "string \<Rightarrow> string \<Rightarrow> bool" where
  "startsWith s p = (take (length p) s = p)"

definition revokeObjectURL :: "string \<Rightarrow> playback \<Rightarrow> playback" where
  "revokeObjectURL u s = s\<lparr>revoked := revoked s @ [u]\<rparr>"

text \<open>The loop of \<open>stopAllAudio\<close> over the queued items.\<close>

fun revokeQueued :: "item list \<Rightarrow> playback \<Rightarrow> playback" where
  "revokeQueued [] s = s"
| "revokeQueued (it # its) s =
     revokeQueued its
       (if revokeAfter it \<and> startsWith (url it) ''blob:'' then revokeObjectURL (url it) s else s)"

definition pause :: "nat \<Rightarrow> playback \<Rightarrow> playback" where
  "pause a s =
     (if a < length (elems s)
      then s\<lparr>elems := (elems s)[a := (elems s ! a)\<lparr>status := Paused\<rparr>]\<rparr>
      else s)"

definition stopAllAudio :: "playback \<Rightarrow> playback" where
  "stopAllAudio s =
     (let s1 = (case audioRef s of
                  None \<Rightarrow> s
                | Some a \<Rightarrow>
                    (let s' = pause a s in
                     if (case currentItemRef s' of None \<Rightarrow> False | Some c \<Rightarrow> revokeAfter c)
                        \<and> a < length (elems s') \<and> startsWith (src (elems s' ! a)) ''blob:''
                     then revokeObjectURL (src (elems s' ! a)) s'
                     else s'));
          s2 = s1\<lparr>audioRef := None, isPlayingRef := False, currentItemRef := None,
                  playingMsgId := None\<rparr>;
          s3 = revokeQueued (audioQueueRef s2) s2
      in s3\<lparr>audioQueueRef := []\<rparr>)"

definition tryPlayNext :: "playback \<Rightarrow> playback" where
  "tryPlayNext s =
     (if isPlayingRef s then s
      else case audioQueueRef s of
             [] \<Rightarrow> s
           | nxt # rest \<Rightarrow>
               s\<lparr>audioQueueRef := rest,
                 isPlayingRef := True,
                 elems := elems s @ [\<lparr>src = url nxt, status = Playing, listening = True,
                                      playPending = True, el_next = nxt\<rparr>],
                 audioRef := Some (length (elems s)),
                 currentItemRef := Some nxt,
                 playingMsgId := msgId nxt\<rparr>)"

text \<open>
  The closure \<open>onEnded\<close> created by \<open>tryPlayNext\<close> for element \<open>a\<close>; \<open>next\<close> and
  \<open>audio\<close> are the variables it captured.
\<close>

definition onEnded :: "nat \<Rightarrow> playback \<Rightarrow> playback" where
  "onEnded a s =
     (let nxt = el_next (elems s ! a);
          s1 = s\<lparr>elems := (elems s)[a := (elems s ! a)\<lparr>listening := False\<rparr>]\<rparr>;
          s2 = (if revokeAfter nxt then revokeObjectURL (url nxt) s1 else s1);
          s3 = s2\<lparr>isPlayingRef := False, currentItemRef := None, playingMsgId := None\<rparr>
      in tryPlayNext s3)"

definition pushItem :: "string \<Rightarrow> bool \<Rightarrow> mid option \<Rightarrow> playback \<Rightarrow> playback" where
  "pushItem u r m s =
     s\<lparr>audioQueueRef := audioQueueRef s @ [\<lparr>url = u, revokeAfter = r, msgId = m,
                                              ident = nextIdent s\<rparr>],
       nextIdent := Suc (nextIdent s)\<rparr>"

definition enqueueAndPlay :: "string \<Rightarrow> bool \<Rightarrow> mid option \<Rightarrow> playback \<Rightarrow> playback" where
  "enqueueAndPlay u r m s = tryPlayNext (pushItem u r m s)"

definition playAudioUrl :: "string \<Rightarrow> mid option \<Rightarrow> playback \<Rightarrow> playback" where
  "playAudioUrl u m s = enqueueAndPlay u False m (stopAllAudio s)"

text \<open>
  What the browser does to an element, and which code it runs. An \<open>ended\<close> or
  \<open>error\<close> event reaches \<open>onEnded\<close> only while the listeners are attached; the
  rejection of the promise returned by \<open>audio.play()\<close> reaches it through
  \<open>.catch(() => onEnded())\<close>, whatever the listeners.
\<close>

definition halt :: "nat \<Rightarrow> playback \<Rightarrow> playback" where
  "halt a s =
     (if status (elems s ! a) = Playing
      then s\<lparr>elems := (elems s)[a := (elems s ! a)\<lparr>status := Stopped\<rparr>]\<rparr>
      else s)"

definition fired :: "nat \<Rightarrow> playback \<Rightarrow> playback" where
  "fired a s =
     (if a < length (elems s)
      then (if listening (elems s ! a) then onEnded a (halt a s) else halt a s)
      else s)"

definition settlePlay :: "nat \<Rightarrow> playback \<Rightarrow> playback" where
  "settlePlay a s = s\<lparr>elems := (elems s)[a := (elems s ! a)\<lparr>playPending := False\<rparr>]\<rparr>"

definition playRejected :: "nat \<Rightarrow> playback \<Rightarrow> playback" where
  "playRejected a s =
     (if a < length (elems s) \<and> playPending (elems s ! a)
      then onEnded a (halt a (settlePlay a s))
      else s)"

definition playStarted :: "nat \<Rightarrow> playback \<Rightarrow> playback" where
  "playStarted a s =
     (if a < length (elems s) \<and> playPending (elems s ! a) then settlePlay a s else s)"

datatype pev =
    Enqueue string bool "mid option"
  | StopAll
  | PlayUrl string "mid option"
  | Fired nat
  | PlayRejected nat
  | PlayStarted nat

fun pstep :: "pev \<Rightarrow> playback \<Rightarrow> playback" where
  "pstep (Enqueue u r m) s = enqueueAndPlay u r m s"
| "pstep StopAll s = stopAllAudio s"
| "pstep (PlayUrl u m) s = playAudioUrl u m s"
| "pstep (Fired a) s = fired a s"
| "pstep (PlayRejected a) s = playRejected a s"
| "pstep (PlayStarted a) s = playStarted a s"

fun prun :: "pev list \<Rightarrow> playback \<Rightarrow> playback" where
  "prun [] s = s"
| "prun (e # es) s = prun es (pstep e s)"

definition idle :: playback where
  "idle = \<lparr>audioRef = None, isPlayingRef = False, currentItemRef = None, audioQueueRef = [],
           playingMsgId = None, elems = [], revoked = [], nextIdent = 0\<rparr>"

definition sounding :: "playback \<Rightarrow> nat list" where
  "sounding s = filter (\<lambda>a. status (elems s ! a) = Playing) [0 ..< length (elems s)]"


text \<open>
  The replay operation as the specification words it: \<open>stopAll()\<close> followed by
  \<open>enqueue(item)\<close> for an item that is not transient.
\<close>

definition playSpecific_spec :: "string \<Rightarrow> mid option \<Rightarrow> playback \<Rightarrow> playback" where
  "playSpecific_spec u m s = prun [StopAll, Enqueue u False m] s"


text \<open>
  The items the queue holds (the current one, then the pending ones) and the URLs of the
  transient ones among them.
\<close>

definition held :: "playback \<Rightarrow> item list" where
  "held s = (case currentItemRef s of None \<Rightarrow> [] | Some c \<Rightarrow> [c]) @ audioQueueRef s"

definition live :: "playback \<Rightarrow> string list" where
  "live s = map url (filter revokeAfter (held s))"

text \<open>
  An event is timely when a transient item is enqueued with a fresh object URL (as
  \<open>speakText\<close> does, from \<open>URL.createObjectURL\<close>) and when a playback callback is the
  one of the element that is playing now.
\<close>

fun timely :: "playback \<Rightarrow> pev \<Rightarrow> bool" where
  "timely s (Enqueue u r m) =
     (r \<longrightarrow> startsWith u ''blob:'' \<and> u \<notin> set (revoked s) \<and> u \<notin> set (live s))"
| "timely s StopAll = True"
| "timely s (PlayUrl u m) = True"
| "timely s (Fired a) = (isPlayingRef s \<and> audioRef s = Some a)"
| "timely s (PlayRejected a) = (isPlayingRef s \<and> audioRef s = Some a)"
| "timely s (PlayStarted a) = True"

fun ptimely :: "playback \<Rightarrow> pev list \<Rightarrow> bool" where
  "ptimely s [] = True"
| "ptimely s (e # es) = (timely s e \<and> ptimely (pstep e s) es)"

fun transient_urls :: "pev list \<Rightarrow> string list" where
  "transient_urls [] = []"
| "transient_urls (Enqueue u r m # es) = (if r then u # transient_urls es else transient_urls es)"
| "transient_urls (e # es) = transient_urls es"

definition plink :: "playback \<Rightarrow> bool" where
  "plink s =
     ((isPlayingRef s \<longleftrightarrow> currentItemRef s \<noteq> None)
      \<and> (\<forall>c. currentItemRef s = Some c \<longrightarrow>
             (\<exists>a. audioRef s = Some a \<and> a < length (elems s)
                  \<and> el_next (elems s ! a) = c \<and> src (elems s ! a) = url c)))"

definition pinv :: "playback \<Rightarrow> bool" where
  "pinv s =
     (plink s \<and> distinct (live s) \<and> distinct (revoked s)
      \<and> set (live s) \<inter> set (revoked s) = {}
      \<and> (\<forall>u \<in> set (live s). startsWith u ''blob:''))"

section \<open>The chat view: messages, streamed replies, voice capture\<close>

text \<open>
  The state of the \<open>Chat\<close> component: its React state (\<open>messages\<close>, \<open>input\<close>,
  \<open>loading\<close>, \<open>recording\<close>), its refs, and what it has asked of the platform (the
  \<open>fetch\<close> calls, the toasts, the streams and recorders it created). An asynchronous
  handler is split at its \<open>await\<close>s: the part before the first one runs when the user
  acts, each continuation runs when the platform settles the awaited promise, and other
  handlers may run in between.
\<close>

datatype role = User | Assistant

record message =
  msg_id :: mid
  role :: role
  msg_text :: string
  audioUrl :: "string option"
  createdAt :: nat

datatype jsval =
    JNull | JBool bool | JNum int | JStr string | JArr "jsval list"
  | JObj "(string \<times> jsval) list"

text \<open>
  What the platform supplies: \<open>JSON.parse\<close> (\<open>None\<close> is a \<open>SyntaxError\<close>), the
  string conversion applied by \<open>+=\<close> to a value that is not a string, and the
  environment variable read by \<open>api.ts\<close>.
\<close>

record platform =
  JSON_parse :: "string \<Rightarrow> jsval option"
  ToString :: "jsval \<Rightarrow> string"
  REACT_APP_API_BASE :: "string option"

definition API_BASE :: "platform \<Rightarrow> string" where
  "API_BASE P =
     (case REACT_APP_API_BASE P of
        None \<Rightarrow> ''https://ccripter-backend.up.railway.app''
      | Some v \<Rightarrow> if v = [] then ''https://ccripter-backend.up.railway.app'' else v)"

definition chatStream :: "platform \<Rightarrow> string" where
  "chatStream P = API_BASE P @ ''/chat/stream''"

definition voiceChat :: "platform \<Rightarrow> string \<Rightarrow> string" where
  "voiceChat P format = API_BASE P @ ''/voice-chat?format='' @ format"

definition speak :: "platform \<Rightarrow> string" where
  "speak P = API_BASE P @ ''/speak''"

text \<open>\<open>String.prototype.trim\<close> on code units below 256.\<close>

definition is_ws :: "char \<Rightarrow> bool" where
  "is_ws c = (c \<in> set [CHR 0x09, CHR 0x0A, CHR 0x0B, CHR 0x0C, CHR 0x0D, CHR 0x20, CHR 0xA0])"

definition trim :: "string \<Rightarrow> string" where
  "trim s = rev (dropWhile is_ws (rev (dropWhile is_ws s)))"

text \<open>\<open>chunk.split('\n')\<close>.\<close>

fun split_nl :: "string \<Rightarrow> string list" where
  "split_nl [] = [[]]"
| "split_nl (c # cs) =
     (if c = CHR 0x0A then [] # split_nl cs
      else (case split_nl cs of [] \<Rightarrow> [[c]] | l # ls \<Rightarrow> (c # l) # ls))"

text \<open>
  Reading a property of a parsed value: \<open>None\<close> is the \<open>TypeError\<close> of reading a
  property of \<open>null\<close>, \<open>Some None\<close> is \<open>undefined\<close>.
\<close>

definition getProp :: "jsval \<Rightarrow> string \<Rightarrow> jsval option option" where
  "getProp v k =
     (case v of JNull \<Rightarrow> None | JObj kvs \<Rightarrow> Some (map_of kvs k) | _ \<Rightarrow> Some None)"

fun truthy :: "jsval \<Rightarrow> bool" where
  "truthy JNull = False"
| "truthy (JBool b) = b"
| "truthy (JNum n) = (n \<noteq> 0)"
| "truthy (JStr s) = (s \<noteq> [])"
| "truthy (JArr xs) = True"
| "truthy (JObj kvs) = True"

definition appended :: "platform \<Rightarrow> jsval \<Rightarrow> string" where
  "appended P v = (case v of JStr s \<Rightarrow> s | _ \<Rightarrow> ToString P v)"

text \<open>
  One line of a chunk, as the body of the \<open>for\<close> loop treats it: a line without the
  prefix is passed over, an exception of \<open>JSON.parse\<close> or of the property access is
  caught and the line skipped, a \<open>delta\<close> event with a truthy \<open>text\<close> appends it, and
  the branch for an \<open>end\<close> event is empty.
\<close>

datatype line_event = NotData | Malformed | Delta string | EndEvt | Ignored

definition lineEvent :: "platform \<Rightarrow> string \<Rightarrow> line_event" where
  "lineEvent P line =
     (if \<not> startsWith line ''data: '' then NotData
      else case JSON_parse P (drop 6 line) of
             None \<Rightarrow> Malformed
           | Some evt \<Rightarrow>
               (case getProp evt ''type'' of
                  None \<Rightarrow> Malformed
                | Some ty \<Rightarrow>
                    if ty = Some (JStr ''delta'')
                    then (case getProp evt ''text'' of
                            Some (Some v) \<Rightarrow> if truthy v then Delta (appended P v) else Ignored
                          | _ \<Rightarrow> Ignored)
                    else if ty = Some (JStr ''end'') then EndEvt
                    else Ignored))"

datatype phase = Fetching | Reading | Settled

record stream_session =
  aborted :: bool
  phase :: phase
  assistantMsg :: mid
  assistantText :: string

datatype mr_state = Inactive | Recording

record recorder =
  mr_state :: mr_state
  stopQueued :: bool
  tracksLive :: bool
  voicePending :: "(mid \<times> mid) option"

datatype record_action = Send | Cancel

record chat =
  messages :: "message list"
  input :: string
  loading :: bool
  recording :: bool
  pb :: playback
  streamAbortRef :: "nat option"
  streams :: "stream_session list"
  mediaRecorderRef :: "nat option"
  chunksRef :: "string list"
  recordActionRef :: record_action
  recorders :: "recorder list"
  micRequests :: nat
  speaks :: "(mid option \<times> bool) list"
  requests :: "(string \<times> jsval) list"
  voiceSent :: "string list"
  toasts :: "string list"
  nextUuid :: nat

definition welcomeText :: string where
  "welcomeText =
     ''Hello! I'' @ [CHR 0x27] @ ''m your CCRIPTER assistant. I can help you with questions, '' @
     ''conversations, and voice interactions. Ask me anything!''"

definition initial :: chat where
  "initial =
     \<lparr>messages = [\<lparr>msg_id = Welcome, role = Assistant,
                   msg_text = welcomeText,
                   audioUrl = None, createdAt = 0\<rparr>],
      input = [], loading = False, recording = False, pb = idle, streamAbortRef = None,
      streams = [], mediaRecorderRef = None, chunksRef = [], recordActionRef = Send,
      recorders = [], micRequests = 0, speaks = [], requests = [], voiceSent = [],
      toasts = [], nextUuid = 0\<rparr>"

definition toast :: "string \<Rightarrow> chat \<Rightarrow> chat" where
  "toast title s = s\<lparr>toasts := toasts s @ [title]\<rparr>"

definition stopAudio :: "chat \<Rightarrow> chat" where
  "stopAudio s = s\<lparr>pb := stopAllAudio (pb s)\<rparr>"

definition abort :: "nat \<Rightarrow> chat \<Rightarrow> chat" where
  "abort c s =
     (if c < length (streams s)
      then s\<lparr>streams := (streams s)[c := (streams s ! c)\<lparr>aborted := True\<rparr>]\<rparr>
      else s)"

definition stopStreaming :: "chat \<Rightarrow> chat" where
  "stopStreaming s =
     (case streamAbortRef s of None \<Rightarrow> s | Some c \<Rightarrow> abort c s)\<lparr>streamAbortRef := None\<rparr>"

definition setText :: "mid \<Rightarrow> string \<Rightarrow> message list \<Rightarrow> message list" where
  "setText i t m = map (\<lambda>msg. if msg_id msg = i then msg\<lparr>msg_text := t\<rparr> else msg) m"

definition setAudioUrl :: "mid \<Rightarrow> string \<Rightarrow> message list \<Rightarrow> message list" where
  "setAudioUrl i u m = map (\<lambda>msg. if msg_id msg = i then msg\<lparr>audioUrl := Some u\<rparr> else msg) m"

subsection \<open>Sending text and reading the streamed reply\<close>

definition onSendText :: "platform \<Rightarrow> nat \<Rightarrow> chat \<Rightarrow> chat" where
  "onSendText P now s =
     (let query = trim (input s) in
      if query = [] then s
      else
        let userMsg = \<lparr>msg_id = Uuid (nextUuid s), role = User, msg_text = query,
                        audioUrl = None, createdAt = now\<rparr>;
            asstMsg = \<lparr>msg_id = Uuid (Suc (nextUuid s)), role = Assistant, msg_text = [],
                        audioUrl = None, createdAt = now\<rparr>;
            s1 = s\<lparr>input := [], nextUuid := Suc (Suc (nextUuid s)),
                   messages := messages s @ [userMsg, asstMsg]\<rparr>;
            s2 = stopStreaming (stopAudio (s1\<lparr>loading := True\<rparr>));
            ctrl = length (streams s2)
        in s2\<lparr>streams := streams s2 @ [\<lparr>aborted = False, phase = Fetching,
                                         assistantMsg = msg_id asstMsg, assistantText = []\<rparr>],
              streamAbortRef := Some ctrl,
              requests := requests s2 @ [(chatStream P,
                           JObj [(''user_id'', JStr ''demo''), (''query'', JStr query)])]\<rparr>)"

definition applyDelta :: "nat \<Rightarrow> string \<Rightarrow> chat \<Rightarrow> chat" where
  "applyDelta c d s =
     (let t = assistantText (streams s ! c) @ d
      in s\<lparr>streams := (streams s)[c := (streams s ! c)\<lparr>assistantText := t\<rparr>],
           messages := setText (assistantMsg (streams s ! c)) t (messages s)\<rparr>)"

definition applyLine :: "platform \<Rightarrow> nat \<Rightarrow> chat \<Rightarrow> string \<Rightarrow> chat" where
  "applyLine P c s line =
     (case lineEvent P line of
        Delta d \<Rightarrow> applyDelta c d s
      | EndEvt \<Rightarrow> s
      | _ \<Rightarrow> s)"

definition applyChunk :: "platform \<Rightarrow> nat \<Rightarrow> string \<Rightarrow> chat \<Rightarrow> chat" where
  "applyChunk P c chunk s = foldl (applyLine P c) s (split_nl chunk)"

definition finallySend :: "nat \<Rightarrow> chat \<Rightarrow> chat" where
  "finallySend c s =
     s\<lparr>loading := False, streamAbortRef := None,
       streams := (streams s)[c := (streams s ! c)\<lparr>phase := Settled\<rparr>]\<rparr>"

definition catchSend :: "nat \<Rightarrow> chat \<Rightarrow> chat" where
  "catchSend c s = finallySend c (toast ''Chat failed'' s)"

text \<open>
  What the platform reports to the activation \<open>c\<close> of \<open>onSendText\<close>. The request was
  issued with \<open>signal: ctrl.signal\<close>: once the controller is aborted, the pending
  \<open>fetch\<close> or \<open>read\<close> can only reject.
\<close>

datatype sev = FetchResolved bool bool | Chunk string | Done | Rejected

definition deliver :: "platform \<Rightarrow> nat \<Rightarrow> sev \<Rightarrow> chat \<Rightarrow> chat" where
  "deliver P c ev s =
     (if \<not> c < length (streams s) then s
      else if phase (streams s ! c) = Settled then s
      else if aborted (streams s ! c) then (case ev of Rejected \<Rightarrow> catchSend c s | _ \<Rightarrow> s)
      else if phase (streams s ! c) = Fetching then
        (case ev of
           FetchResolved ok body \<Rightarrow>
             if ok \<and> body
             then s\<lparr>streams := (streams s)[c := (streams s ! c)\<lparr>phase := Reading\<rparr>]\<rparr>
             else catchSend c s
         | Rejected \<Rightarrow> catchSend c s
         | _ \<Rightarrow> s)
      else
        (case ev of
           Chunk d \<Rightarrow> applyChunk P c d s
         | Done \<Rightarrow> finallySend c s
         | Rejected \<Rightarrow> catchSend c s
         | _ \<Rightarrow> s))"

definition onInputChange :: "string \<Rightarrow> chat \<Rightarrow> chat" where
  "onInputChange v s = stopStreaming (stopAudio (s\<lparr>input := v\<rparr>))"

subsection \<open>Voice capture\<close>

text \<open>
  \<open>onToggleRecord\<close> up to \<open>await navigator.mediaDevices.getUserMedia\<close>, and its
  continuation. The continuation creates the recorder (\<open>new MediaRecorder\<close> throws for
  an unsupported MIME type, after the stream has been acquired), installs the handlers
  and starts it.
\<close>

definition onToggleRecord :: "chat \<Rightarrow> chat" where
  "onToggleRecord s =
     (if recording s then s
      else (stopStreaming (stopAudio s))\<lparr>micRequests := Suc (micRequests s)\<rparr>)"

definition micGranted :: "bool \<Rightarrow> chat \<Rightarrow> chat" where
  "micGranted supported s =
     (if micRequests s = 0 then s
      else
        let s1 = s\<lparr>micRequests := micRequests s - 1\<rparr> in
        if \<not> supported
        then toast ''Mic error''
               (s1\<lparr>recorders := recorders s1 @ [\<lparr>mr_state = Inactive, stopQueued = False,
                                                  tracksLive = True, voicePending = None\<rparr>]\<rparr>)
        else s1\<lparr>recorders := recorders s1 @ [\<lparr>mr_state = Recording, stopQueued = False,
                                                tracksLive = True, voicePending = None\<rparr>],
                mediaRecorderRef := Some (length (recorders s1)),
                chunksRef := [],
                recordActionRef := Send,
                recording := True\<rparr>)"

definition micDenied :: "chat \<Rightarrow> chat" where
  "micDenied s =
     (if micRequests s = 0 then s
      else toast ''Mic error'' (s\<lparr>micRequests := micRequests s - 1\<rparr>))"

text \<open>\<open>mr.ondataavailable\<close>; a \<open>BlobPart\<close> is its bytes.\<close>

definition ondataavailable :: "nat \<Rightarrow> string \<Rightarrow> chat \<Rightarrow> chat" where
  "ondataavailable r d s =
     (if r < length (recorders s)
         \<and> (mr_state (recorders s ! r) = Recording \<or> stopQueued (recorders s ! r))
      then (if length d > 0 then s\<lparr>chunksRef := chunksRef s @ [d]\<rparr> else s)
      else s)"

text \<open>\<open>mediaRecorderRef.current.stop()\<close>: the recorder becomes inactive and its
  \<open>stop\<close> event is queued.\<close>

definition stopRecorder :: "chat \<Rightarrow> chat" where
  "stopRecorder s =
     (case mediaRecorderRef s of
        None \<Rightarrow> s
      | Some r \<Rightarrow>
          if r < length (recorders s) \<and> mr_state (recorders s ! r) \<noteq> Inactive
          then s\<lparr>recorders := (recorders s)[r := (recorders s ! r)\<lparr>mr_state := Inactive,
                                                                    stopQueued := True\<rparr>]\<rparr>
          else s)"

definition cancelRecording :: "chat \<Rightarrow> chat" where
  "cancelRecording s = (stopRecorder (s\<lparr>recordActionRef := Cancel\<rparr>))\<lparr>recording := False\<rparr>"

definition confirmRecording :: "chat \<Rightarrow> chat" where
  "confirmRecording s = (stopRecorder (s\<lparr>recordActionRef := Send\<rparr>))\<lparr>recording := False\<rparr>"

text \<open>\<open>onSendVoice\<close> up to \<open>await fetch\<close>, for the recorder \<open>r\<close> whose \<open>onstop\<close>
  awaits it.\<close>

definition onSendVoice :: "platform \<Rightarrow> nat \<Rightarrow> nat \<Rightarrow> string \<Rightarrow> chat \<Rightarrow> chat" where
  "onSendVoice P now r blob s =
     (let userMsg = \<lparr>msg_id = Uuid (nextUuid s), role = User, msg_text = ''(speaking...)'',
                     audioUrl = None, createdAt = now\<rparr>;
          asstMsg = \<lparr>msg_id = Uuid (Suc (nextUuid s)), role = Assistant, msg_text = [],
                     audioUrl = None, createdAt = now\<rparr>
      in s\<lparr>nextUuid := Suc (Suc (nextUuid s)),
           messages := messages s @ [userMsg, asstMsg],
           loading := True,
           voiceSent := voiceSent s @ [blob],
           requests := requests s @ [(voiceChat P ''binary'',
                         JObj [(''file'', JStr blob), (''user_id'', JStr ''demo'')])],
           recorders := (recorders s)[r := (recorders s ! r)
                           \<lparr>voicePending := Some (msg_id userMsg, msg_id asstMsg)\<rparr>]\<rparr>)"

definition stopTracks :: "nat \<Rightarrow> chat \<Rightarrow> chat" where
  "stopTracks r s = s\<lparr>recorders := (recorders s)[r := (recorders s ! r)\<lparr>tracksLive := False\<rparr>]\<rparr>"

text \<open>\<open>mr.onstop\<close> of recorder \<open>r\<close>, run when its queued \<open>stop\<close> event fires.\<close>

definition onstop :: "platform \<Rightarrow> nat \<Rightarrow> nat \<Rightarrow> chat \<Rightarrow> chat" where
  "onstop P now r s =
     (if r < length (recorders s) \<and> stopQueued (recorders s ! r)
      then
        let s0 = s\<lparr>recorders := (recorders s)[r := (recorders s ! r)\<lparr>stopQueued := False\<rparr>]\<rparr>;
            blob = concat (chunksRef s0);
            action = recordActionRef s0;
            s1 = s0\<lparr>chunksRef := []\<rparr>
        in if action = Send then onSendVoice P now r blob s1 else stopTracks r s1
      else s)"

text \<open>
  The rest of \<open>onSendVoice\<close> and then of \<open>onstop\<close>, when the voice request settles:
  a failed request or response is reported by a toast, a good one carries the
  \<open>X-Transcript\<close> header and the object URL made from the reply's audio.
\<close>

datatype voice_reply = VoiceFailed | VoiceReply "string option" string

definition voiceSettled :: "nat \<Rightarrow> voice_reply \<Rightarrow> chat \<Rightarrow> chat" where
  "voiceSettled r rep s =
     (if r < length (recorders s)
      then (case voicePending (recorders s ! r) of
              None \<Rightarrow> s
            | Some (userId, asstId) \<Rightarrow>
                let s0 = s\<lparr>recorders := (recorders s)[r := (recorders s ! r)\<lparr>voicePending := None\<rparr>]\<rparr>;
                    s1 = (case rep of
                            VoiceFailed \<Rightarrow> toast ''Voice chat failed'' s0
                          | VoiceReply hdr u \<Rightarrow>
                              let transcriptHeader =
                                    (case hdr of None \<Rightarrow> ''(no transcript)''
                                     | Some h \<Rightarrow> if h = [] then ''(no transcript)'' else h);
                                  m1 = setText userId transcriptHeader (messages s0);
                                  m2 = setAudioUrl asstId u m1
                              in s0\<lparr>messages := m2, pb := enqueueAndPlay u False None (pb s0)\<rparr>)
                in stopTracks r (s1\<lparr>loading := False\<rparr>))
      else s)"

subsection \<open>Speaking a message and the play buttons\<close>

definition speakText :: "platform \<Rightarrow> string \<Rightarrow> mid option \<Rightarrow> chat \<Rightarrow> chat" where
  "speakText P t m s =
     (let s1 = stopAudio s
      in s1\<lparr>requests := requests s1 @ [(speak P, JObj [(''text'', JStr t)])],
            speaks := speaks s1 @ [(m, True)]\<rparr>)"

definition speakSettled :: "nat \<Rightarrow> string option \<Rightarrow> chat \<Rightarrow> chat" where
  "speakSettled k res s =
     (if k < length (speaks s) \<and> snd (speaks s ! k)
      then
        let s0 = s\<lparr>speaks := (speaks s)[k := (fst (speaks s ! k), False)]\<rparr>
        in (case res of
              None \<Rightarrow> toast ''Speak failed'' s0
            | Some u \<Rightarrow> s0\<lparr>pb := enqueueAndPlay u True (fst (speaks s ! k)) (pb s0)\<rparr>)
      else s)"

text \<open>The button next to message \<open>i\<close>: rendered for an assistant message that has
  audio or text; it pauses when that message is playing and plays otherwise.\<close>

definition clickPlay :: "platform \<Rightarrow> nat \<Rightarrow> chat \<Rightarrow> chat" where
  "clickPlay P i s =
     (if i < length (messages s)
      then
        let m = messages s ! i in
        if role m = Assistant \<and> (audioUrl m \<noteq> None \<or> trim (msg_text m) \<noteq> [])
        then (if playingMsgId (pb s) = Some (msg_id m) then stopAudio s
              else (case audioUrl m of
                      Some u \<Rightarrow> s\<lparr>pb := playAudioUrl u (Some (msg_id m)) (pb s)\<rparr>
                    | None \<Rightarrow> speakText P (msg_text m) (Some (msg_id m)) s))
        else s
      else s)"

subsection \<open>Everything that can happen to the view\<close>

text \<open>
  The input row (microphone, text field, send) is rendered while \<open>recording\<close> is false,
  the recording pill (cancel, confirm) while it is true. The other events are the
  platform settling what the handlers await or firing what they listen to.
\<close>

datatype event =
    InputChange string
  | SendText nat
  | ToggleRecord
  | CancelRecording
  | ConfirmRecording
  | ClickPlay nat
  | Stream nat sev
  | MicGranted bool
  | MicDenied
  | DataAvailable nat string
  | RecorderStopped nat nat
  | VoiceSettled nat voice_reply
  | SpeakSettled nat "string option"
  | AudioFired nat
  | AudioPlayRejected nat
  | AudioPlayStarted nat

fun step :: "platform \<Rightarrow> event \<Rightarrow> chat \<Rightarrow> chat" where
  "step P (InputChange v) s = (if recording s then s else onInputChange v s)"
| "step P (SendText now) s = (if recording s then s else onSendText P now s)"
| "step P ToggleRecord s = (if recording s then s else onToggleRecord s)"
| "step P CancelRecording s = (if recording s then cancelRecording s else s)"
| "step P ConfirmRecording s = (if recording s then confirmRecording s else s)"
| "step P (ClickPlay i) s = clickPlay P i s"
| "step P (Stream c ev) s = deliver P c ev s"
| "step P (MicGranted supported) s = micGranted supported s"
| "step P MicDenied s = micDenied s"
| "step P (DataAvailable r d) s = ondataavailable r d s"
| "step P (RecorderStopped now r) s = onstop P now r s"
| "step P (VoiceSettled r rep) s = voiceSettled r rep s"
| "step P (SpeakSettled k res) s = speakSettled k res s"
| "step P (AudioFired a) s = s\<lparr>pb := fired a (pb s)\<rparr>"
| "step P (AudioPlayRejected a) s = s\<lparr>pb := playRejected a (pb s)\<rparr>"
| "step P (AudioPlayStarted a) s = s\<lparr>pb := playStarted a (pb s)\<rparr>"

fun run :: "platform \<Rightarrow> event list \<Rightarrow> chat \<Rightarrow> chat" where
  "run P [] s = s"
| "run P (e # es) s = run P es (step P e s)"

text \<open>A stream session is active while its activation of \<open>onSendText\<close> has neither
  finished nor been aborted; a recording is active while a recorder records.\<close>

definition activeStreams :: "chat \<Rightarrow> nat list" where
  "activeStreams s =
     filter (\<lambda>c. phase (streams s ! c) \<noteq> Settled \<and> \<not> aborted (streams s ! c))
            [0 ..< length (streams s)]"

definition activeRecordings :: "chat \<Rightarrow> nat list" where
  "activeRecordings s =
     filter (\<lambda>r. mr_state (recorders s ! r) = Recording) [0 ..< length (recorders s)]"

definition textOf :: "mid \<Rightarrow> chat \<Rightarrow> string list" where
  "textOf i s = map msg_text (filter (\<lambda>m. msg_id m = i) (messages s))"

subsection \<open>Reading a whole reply\<close>

text \<open>The text one line appends.\<close>

definition frag :: "platform \<Rightarrow> string \<Rightarrow> string" where
  "frag P l = (case lineEvent P l of Delta d \<Rightarrow> d | _ \<Rightarrow> [])"

text \<open>The text that the lines of one chunk append, in order.\<close>

definition chunkDeltas :: "platform \<Rightarrow> string \<Rightarrow> string" where
  "chunkDeltas P chunk =
     concat (map (frag P) (split_nl chunk))"

text \<open>The assistant message of stream \<open>c\<close> shows the text accumulated so far.\<close>

definition inSync :: "nat \<Rightarrow> chat \<Rightarrow> bool" where
  "inSync c s =
     list_all (\<lambda>m. msg_id m = assistantMsg (streams s ! c)
                  \<longrightarrow> msg_text m = assistantText (streams s ! c)) (messages s)"

text \<open>
  A platform for concrete runs: its \<open>JSON.parse\<close> is the real one restricted to the
  three payloads used below.
\<close>

definition demoParse :: "string \<Rightarrow> jsval option" where
  "demoParse =
     map_of [(''{\"type\":\"delta\",\"text\":\"Hel\"}'',
                JObj [(''type'', JStr ''delta''), (''text'', JStr ''Hel'')]),
             (''{\"type\":\"delta\",\"text\":\"lo\"}'',
                JObj [(''type'', JStr ''delta''), (''text'', JStr ''lo'')]),
             (''{\"type\":\"end\"}'', JObj [(''type'', JStr ''end'')])]"

definition demoPlatform :: platform where
  "demoPlatform = \<lparr>JSON_parse = demoParse, ToString = (\<lambda>v. []), REACT_APP_API_BASE = None\<rparr>"

definition deltaHel :: string where
  "deltaHel = ''data: {\"type\":\"delta\",\"text\":\"Hel\"}'' @ [CHR 0x0A, CHR 0x0A]"

definition deltaLo :: string where
  "deltaLo = ''data: {\"type\":\"delta\",\"text\":\"lo\"}'' @ [CHR 0x0A, CHR 0x0A]"

definition endLine :: string where
  "endLine = ''data: {\"type\":\"end\"}'' @ [CHR 0x0A, CHR 0x0A]"

text \<open>What reading leaves untouched in a session.\<close>

definition sameSession :: "nat \<Rightarrow> chat \<Rightarrow> chat \<Rightarrow> bool" where
  "sameSession c s s' =
     (length (streams s') = length (streams s)
      \<and> phase (streams s' ! c) = phase (streams s ! c)
      \<and> aborted (streams s' ! c) = aborted (streams s ! c)
      \<and> assistantMsg (streams s' ! c) = assistantMsg (streams s ! c)
      \<and> loading s' = loading s
      \<and> streamAbortRef s' = streamAbortRef s)"

text \<open>A chunk that ends at a line boundary: the read did not cut a line.\<close>

definition endsNl :: "string \<Rightarrow> bool" where
  "endsNl d = (d = [] \<or> last d = CHR 0x0A)"

subsection \<open>Who writes the text of a message\<close>

text \<open>
  The text of an assistant message is written by the stream session that created it, the
  text of a voice message by the voice request that created it. Message ids are fresh
  when they are created, so no two sessions share one.
\<close>

definition asstIds :: "chat \<Rightarrow> mid list" where
  "asstIds s = map assistantMsg (streams s)"

definition pendingVoice :: "chat \<Rightarrow> (mid \<times> mid) option list" where
  "pendingVoice s = map voicePending (recorders s)"

fun isOld :: "nat \<Rightarrow> mid \<Rightarrow> bool" where
  "isOld n Welcome = False"
| "isOld n (Uuid k) = (k < n)"

definition voiceOk :: "chat \<Rightarrow> (mid \<times> mid) option \<Rightarrow> bool" where
  "voiceOk s v =
     (case v of None \<Rightarrow> True
      | Some (u, a) \<Rightarrow> isOld (nextUuid s) u \<and> u \<notin> set (asstIds s))"

definition wfChat :: "chat \<Rightarrow> bool" where
  "wfChat s =
     (list_all (isOld (nextUuid s)) (asstIds s)
      \<and> distinct (asstIds s)
      \<and> list_all (voiceOk s) (pendingVoice s)
      \<and> (case streamAbortRef s of None \<Rightarrow> True | Some c \<Rightarrow> c < length (streams s)))"

text \<open>
  Message \<open>m\<close> is quiet: its id will not be created again, every stream session that
  populates it has been aborted, and no pending voice request will write its text.
\<close>

fun notFresh :: "nat \<Rightarrow> mid \<Rightarrow> bool" where
  "notFresh n Welcome = True"
| "notFresh n (Uuid k) = (k < n)"

definition notWriter :: "mid \<Rightarrow> (mid \<times> mid) option \<Rightarrow> bool" where
  "notWriter m v = (case v of None \<Rightarrow> True | Some (u, a) \<Rightarrow> u \<noteq> m)"

definition quiet :: "mid \<Rightarrow> chat \<Rightarrow> bool" where
  "quiet m s =
     (notFresh (nextUuid s) m
      \<and> list_all (\<lambda>x. aborted x \<or> assistantMsg x \<noteq> m) (streams s)
      \<and> list_all (notWriter m) (pendingVoice s))"

definition pres :: "mid \<Rightarrow> chat \<Rightarrow> chat \<Rightarrow> bool" where
  "pres m s s' = (wfChat s' \<and> quiet m s' \<and> textOf m s' = textOf m s)"

text \<open>Stream \<open>c\<close> is aborted and keeps its message and its accumulated text.\<close>

definition stays :: "nat \<Rightarrow> chat \<Rightarrow> chat \<Rightarrow> bool" where
  "stays c s s' =
     (c < length (streams s') \<and> aborted (streams s' ! c)
      \<and> assistantMsg (streams s' ! c) = assistantMsg (streams s ! c)
      \<and> assistantText (streams s' ! c) = assistantText (streams s ! c))"
section \<open>Facts about the playback queue\<close>

lemma revokeQueued_fields:
  "audioRef (revokeQueued its s) = audioRef s"
  "isPlayingRef (revokeQueued its s) = isPlayingRef s"
  "currentItemRef (revokeQueued its s) = currentItemRef s"
  "audioQueueRef (revokeQueued its s) = audioQueueRef s"
  "playingMsgId (revokeQueued its s) = playingMsgId s"
  "elems (revokeQueued its s) = elems s"
  "nextIdent (revokeQueued its s) = nextIdent s"
  by (induction its arbitrary: s; simp add: revokeObjectURL_def)+

lemma revokeQueued_revoked:
  "revoked (revokeQueued its s) =
     revoked s @ map url (filter (\<lambda>it. revokeAfter it \<and> startsWith (url it) ''blob:'') its)"
  by (induction its arbitrary: s) (simp_all add: revokeObjectURL_def)

lemma stopAllAudio_fields:
  "audioRef (stopAllAudio s) = None"
  "isPlayingRef (stopAllAudio s) = False"
  "currentItemRef (stopAllAudio s) = None"
  "audioQueueRef (stopAllAudio s) = []"
  "playingMsgId (stopAllAudio s) = None"
  "nextIdent (stopAllAudio s) = nextIdent s"
  by (simp_all add: stopAllAudio_def Let_def revokeQueued_fields revokeObjectURL_def pause_def
        split: option.splits)

text \<open>
  C9. Replaying a message's audio (\<open>playAudioUrl\<close>) is \<open>stopAllAudio\<close> followed by
  enqueueing the URL as a non-transient item: the two formulations give the same state,
  hence the same queue, the same playing item and the same releases. That state has the
  new item as the current one, an empty queue, and exactly the releases of
  \<open>stopAllAudio\<close>.
\<close>

theorem playAudioUrl_is_stopAll_then_enqueue:
  "playAudioUrl u m s = playSpecific_spec u m s
   \<and> revoked (playAudioUrl u m s) = revoked (stopAllAudio s)
   \<and> audioQueueRef (playAudioUrl u m s) = []
   \<and> currentItemRef (playAudioUrl u m s)
       = Some \<lparr>url = u, revokeAfter = False, msgId = m, ident = nextIdent s\<rparr>
   \<and> isPlayingRef (playAudioUrl u m s)
   \<and> playingMsgId (playAudioUrl u m s) = m"
  by (simp add: playAudioUrl_def playSpecific_spec_def enqueueAndPlay_def pushItem_def tryPlayNext_def
        stopAllAudio_fields)

lemmas playback_defs =
  idle_def sounding_def enqueueAndPlay_def pushItem_def tryPlayNext_def fired_def playRejected_def
  playStarted_def onEnded_def halt_def settlePlay_def revokeObjectURL_def startsWith_def
  stopAllAudio_def pause_def playAudioUrl_def

text \<open>
  C3. A callback of an item that \<open>stopAllAudio\<close> has stopped still runs \<open>onEnded\<close>:
  nothing in \<open>stopAllAudio\<close> detaches the listeners or cancels the \<open>.catch\<close> of
  \<open>audio.play()\<close>, and \<open>onEnded\<close> does not look at which element is current. Item A
  (transient) is stopped, item B is enqueued and plays; the rejection of A's \<open>play()\<close>
  then releases A's URL a second time and clears the playing state while B's element
  still plays.
\<close>

theorem late_callback_after_stopAll:
  "revoked (prun [Enqueue ''blob:a'' True (Some (Uuid 1)), StopAll,
                  Enqueue ''blob:b'' False (Some (Uuid 3))] idle) = [''blob:a'']
   \<and> isPlayingRef (prun [Enqueue ''blob:a'' True (Some (Uuid 1)), StopAll,
                  Enqueue ''blob:b'' False (Some (Uuid 3))] idle)
   \<and> revoked (prun [Enqueue ''blob:a'' True (Some (Uuid 1)), StopAll,
                  Enqueue ''blob:b'' False (Some (Uuid 3)), PlayRejected 0] idle)
       = [''blob:a'', ''blob:a'']
   \<and> \<not> isPlayingRef (prun [Enqueue ''blob:a'' True (Some (Uuid 1)), StopAll,
                  Enqueue ''blob:b'' False (Some (Uuid 3)), PlayRejected 0] idle)
   \<and> currentItemRef (prun [Enqueue ''blob:a'' True (Some (Uuid 1)), StopAll,
                  Enqueue ''blob:b'' False (Some (Uuid 3)), PlayRejected 0] idle) = None
   \<and> sounding (prun [Enqueue ''blob:a'' True (Some (Uuid 1)), StopAll,
                  Enqueue ''blob:b'' False (Some (Uuid 3)), PlayRejected 0] idle) = [1]
   \<and> sounding (prun [Enqueue ''blob:a'' True (Some (Uuid 1)), StopAll,
                  Enqueue ''blob:b'' False (Some (Uuid 3)), PlayRejected 0,
                  Enqueue ''blob:c'' False (Some (Uuid 5))] idle) = [1, 2]"
  by (simp add: playback_defs upt_rec)

text \<open>
  C2. When an item fails to load, the browser both dispatches \<open>error\<close> to the listeners
  and rejects the promise of \<open>audio.play()\<close>; the code routes both to \<open>onEnded\<close>.
  With B and C queued behind A, the first call starts B and the second call, finding
  the refs cleared by itself, starts C while B's element is still playing: two elements
  sound at once, although \<open>isPlayingRef\<close> and \<open>currentItemRef\<close> still agree.
\<close>

theorem overlap_after_error_and_rejection:
  "sounding (prun [Enqueue ''blob:a'' False None, Enqueue ''blob:b'' False None,
                   Enqueue ''blob:c'' False None, Fired 0] idle) = [1]
   \<and> sounding (prun [Enqueue ''blob:a'' False None, Enqueue ''blob:b'' False None,
                   Enqueue ''blob:c'' False None, Fired 0, PlayRejected 0] idle) = [1, 2]
   \<and> map ident (audioQueueRef (prun [Enqueue ''blob:a'' False None,
                   Enqueue ''blob:b'' False None, Enqueue ''blob:c'' False None,
                   Fired 0, PlayRejected 0] idle)) = []
   \<and> map_option ident (currentItemRef (prun [Enqueue ''blob:a'' False None,
                   Enqueue ''blob:b'' False None, Enqueue ''blob:c'' False None,
                   Fired 0, PlayRejected 0] idle)) = Some 2"
  by (simp add: playback_defs upt_rec)

subsection \<open>The release discipline under timely callbacks\<close>

lemma tryPlayNext_revoked: "revoked (tryPlayNext s) = revoked s"
  by (simp add: tryPlayNext_def split: list.splits)

lemma tryPlayNext_held:
  "(isPlayingRef s \<longleftrightarrow> currentItemRef s \<noteq> None) \<Longrightarrow> held (tryPlayNext s) = held s"
  by (cases "isPlayingRef s") (auto simp: tryPlayNext_def held_def split: list.splits)

lemma tryPlayNext_plink: "plink s \<Longrightarrow> plink (tryPlayNext s)"
  by (cases "isPlayingRef s") (auto simp: tryPlayNext_def plink_def split: list.splits)

lemma live_tryPlayNext: "plink s \<Longrightarrow> live (tryPlayNext s) = live s"
  by (simp add: live_def tryPlayNext_held plink_def)

lemma plink_push: "plink s \<Longrightarrow> plink (pushItem u r m s)"
  by (simp add: plink_def pushItem_def)

lemma live_push: "live (pushItem u r m s) = live s @ (if r then [u] else [])"
  by (simp add: live_def held_def pushItem_def)

lemma revoked_push: "revoked (pushItem u r m s) = revoked s"
  by (simp add: pushItem_def)

lemma pinv_enqueue: "pinv s \<Longrightarrow> timely s (Enqueue u r m) \<Longrightarrow> pinv (enqueueAndPlay u r m s)"
  by (auto simp: pinv_def enqueueAndPlay_def tryPlayNext_plink plink_push live_tryPlayNext live_push
        tryPlayNext_revoked revoked_push)

lemma enqueue_urls:
  "pinv s \<Longrightarrow> set (revoked (enqueueAndPlay u r m s)) \<union> set (live (enqueueAndPlay u r m s))
     = set (revoked s) \<union> set (live s) \<union> (if r then {u} else {})"
  by (auto simp: pinv_def enqueueAndPlay_def tryPlayNext_plink plink_push live_tryPlayNext live_push
        tryPlayNext_revoked revoked_push)

lemma live_stopAll: "live (stopAllAudio s) = []"
  by (simp add: live_def held_def stopAllAudio_fields)

lemma plink_stopAll: "plink (stopAllAudio s)"
  by (simp add: plink_def stopAllAudio_fields)

lemma revoked_stopAll:
  "pinv s \<Longrightarrow> revoked (stopAllAudio s) = revoked s @ live s"
  apply (simp add: stopAllAudio_def Let_def revokeQueued_revoked revokeQueued_fields pinv_def plink_def live_def held_def pause_def revokeObjectURL_def split: option.splits)
  apply (auto intro!: filter_cong arg_cong[where f="map url"])
  done

lemma pinv_stopAll: "pinv s \<Longrightarrow> pinv (stopAllAudio s)"
  using revoked_stopAll[of s] live_stopAll[of s]
  by (auto simp: pinv_def plink_stopAll)

lemma upd_beyond: "\<not> a < length xs \<Longrightarrow> xs[a := x] = xs"
  by (simp add: list_update_beyond)

lemma halt_fields:
  "audioRef (halt a s) = audioRef s"
  "isPlayingRef (halt a s) = isPlayingRef s"
  "currentItemRef (halt a s) = currentItemRef s"
  "audioQueueRef (halt a s) = audioQueueRef s"
  "revoked (halt a s) = revoked s"
  "length (elems (halt a s)) = length (elems s)"
  by (simp_all add: halt_def)

lemma halt_nth:
  "el_next (elems (halt a s) ! b) = el_next (elems s ! b)"
  "src (elems (halt a s) ! b) = src (elems s ! b)"
  "listening (elems (halt a s) ! b) = listening (elems s ! b)"
  by (cases "a < length (elems s)", simp_all add: halt_def nth_list_update upd_beyond)+

lemma settlePlay_fields:
  "audioRef (settlePlay a s) = audioRef s"
  "isPlayingRef (settlePlay a s) = isPlayingRef s"
  "currentItemRef (settlePlay a s) = currentItemRef s"
  "audioQueueRef (settlePlay a s) = audioQueueRef s"
  "revoked (settlePlay a s) = revoked s"
  "length (elems (settlePlay a s)) = length (elems s)"
  by (simp_all add: settlePlay_def)

lemma settlePlay_nth:
  "el_next (elems (settlePlay a s) ! b) = el_next (elems s ! b)"
  "src (elems (settlePlay a s) ! b) = src (elems s ! b)"
  "listening (elems (settlePlay a s) ! b) = listening (elems s ! b)"
  by (cases "a < length (elems s)", simp_all add: settlePlay_def nth_list_update upd_beyond)+

lemma live_cong: "currentItemRef t = currentItemRef s \<Longrightarrow> audioQueueRef t = audioQueueRef s \<Longrightarrow> live t = live s"
  by (simp add: live_def held_def)

lemma plink_cong:
  "currentItemRef t = currentItemRef s \<Longrightarrow> isPlayingRef t = isPlayingRef s \<Longrightarrow> audioRef t = audioRef s
   \<Longrightarrow> length (elems t) = length (elems s) \<Longrightarrow> (\<And>b. el_next (elems t ! b) = el_next (elems s ! b))
   \<Longrightarrow> (\<And>b. src (elems t ! b) = src (elems s ! b)) \<Longrightarrow> plink t = plink s"
  by (simp add: plink_def)

lemma pinv_cong:
  "currentItemRef t = currentItemRef s \<Longrightarrow> isPlayingRef t = isPlayingRef s \<Longrightarrow> audioRef t = audioRef s
   \<Longrightarrow> audioQueueRef t = audioQueueRef s \<Longrightarrow> revoked t = revoked s
   \<Longrightarrow> length (elems t) = length (elems s) \<Longrightarrow> (\<And>b. el_next (elems t ! b) = el_next (elems s ! b))
   \<Longrightarrow> (\<And>b. src (elems t ! b) = src (elems s ! b)) \<Longrightarrow> pinv t = pinv s"
  using plink_cong[of t s] live_cong[of t s] by (simp add: pinv_def)

lemma pinv_halt: "pinv (halt a s) = pinv s"
  by (rule pinv_cong) (simp_all add: halt_fields halt_nth)

lemma pinv_settle: "pinv (settlePlay a s) = pinv s"
  by (rule pinv_cong) (simp_all add: settlePlay_fields settlePlay_nth)

text \<open>\<open>onEnded\<close> running for the element that is current.\<close>

lemma onEnded_current:
  assumes "pinv s" "isPlayingRef s" "audioRef s = Some a"
  shows "pinv (onEnded a s) \<and> set (revoked (onEnded a s)) \<union> set (live (onEnded a s)) = set (revoked s) \<union> set (live s)"
proof -
  from assms obtain c where c: "currentItemRef s = Some c" "a < length (elems s)" "el_next (elems s ! a) = c"
    by (auto simp: pinv_def plink_def)
  define s3 where "s3 = (let s1 = s\<lparr>elems := (elems s)[a := (elems s ! a)\<lparr>listening := False\<rparr>]\<rparr>;
          s2 = (if revokeAfter c then revokeObjectURL (url c) s1 else s1)
      in s2\<lparr>isPlayingRef := False, currentItemRef := None, playingMsgId := None\<rparr>)"
  have oe: "onEnded a s = tryPlayNext s3" using c by (simp add: onEnded_def s3_def Let_def)
  have l3: "plink s3" by (simp add: plink_def s3_def Let_def revokeObjectURL_def)
  have live3: "live s = (if revokeAfter c then [url c] else []) @ live s3"
    using c by (simp add: live_def held_def s3_def Let_def revokeObjectURL_def)
  have rev3: "revoked s3 = revoked s @ (if revokeAfter c then [url c] else [])"
    by (simp add: s3_def Let_def revokeObjectURL_def)
  show ?thesis using assms(1) l3 live3 rev3
    by (auto simp: oe pinv_def tryPlayNext_plink live_tryPlayNext tryPlayNext_revoked split: if_splits)
qed

lemma step_fired:
  assumes "pinv s" "timely s (Fired a)"
  shows "pinv (fired a s) \<and> set (revoked (fired a s)) \<union> set (live (fired a s))
          = set (revoked s) \<union> set (live s)"
proof -
  from assms have p: "pinv (halt a s)" "isPlayingRef (halt a s)" "audioRef (halt a s) = Some a"
    by (simp_all add: halt_fields pinv_halt)
  have lv: "live (halt a s) = live s" by (rule live_cong) (simp_all add: halt_fields)
  have rv: "revoked (halt a s) = revoked s" by (simp add: halt_fields)
  note oe = onEnded_current[OF p]
  consider (run) "fired a s = onEnded a (halt a s)" | (halted) "fired a s = halt a s"
    | (none) "fired a s = s"
    by (cases "a < length (elems s)"; cases "listening (elems s ! a)"; simp add: fired_def)
  then show ?thesis
  proof cases
    case run
    from oe show ?thesis unfolding run lv rv .
  next
    case halted
    from p(1) assms(1) show ?thesis unfolding halted lv rv by simp
  next
    case none
    from assms(1) show ?thesis unfolding none by simp
  qed
qed

lemma step_rejected:
  assumes "pinv s" "timely s (PlayRejected a)"
  shows "pinv (playRejected a s) \<and> set (revoked (playRejected a s)) \<union> set (live (playRejected a s))
          = set (revoked s) \<union> set (live s)"
proof -
  let ?h = "halt a (settlePlay a s)"
  from assms have p: "pinv ?h" "isPlayingRef ?h" "audioRef ?h = Some a"
    by (simp_all add: halt_fields settlePlay_fields pinv_halt pinv_settle)
  have lv: "live ?h = live s" by (rule live_cong) (simp_all add: halt_fields settlePlay_fields)
  have rv: "revoked ?h = revoked s" by (simp add: halt_fields settlePlay_fields)
  note oe = onEnded_current[OF p]
  consider (run) "playRejected a s = onEnded a ?h" | (none) "playRejected a s = s"
    by (cases "a < length (elems s) \<and> playPending (elems s ! a)"; simp add: playRejected_def)
  then show ?thesis
  proof cases
    case run
    from oe show ?thesis unfolding run lv rv .
  next
    case none
    from assms(1) show ?thesis unfolding none by simp
  qed
qed

lemma step_started:
  assumes "pinv s"
  shows "pinv (playStarted a s) \<and> set (revoked (playStarted a s)) \<union> set (live (playStarted a s))
          = set (revoked s) \<union> set (live s)"
proof -
  have lv: "live (settlePlay a s) = live s"
    by (rule live_cong) (simp_all add: settlePlay_fields)
  from assms show ?thesis
    by (simp add: playStarted_def pinv_settle settlePlay_fields lv)
qed

lemma step_stopAll:
  assumes "pinv s"
  shows "pinv (stopAllAudio s) \<and> set (revoked (stopAllAudio s)) \<union> set (live (stopAllAudio s))
          = set (revoked s) \<union> set (live s)"
  using assms pinv_stopAll[of s] revoked_stopAll[of s] live_stopAll[of s] by simp

lemma step_playUrl:
  assumes "pinv s"
  shows "pinv (playAudioUrl u m s) \<and> set (revoked (playAudioUrl u m s)) \<union> set (live (playAudioUrl u m s))
          = set (revoked s) \<union> set (live s)"
proof -
  have t: "timely (stopAllAudio s) (Enqueue u False m)" by simp
  note st = step_stopAll[OF assms]
  from st have p: "pinv (stopAllAudio s)" by simp
  from pinv_enqueue[OF p t] enqueue_urls[OF p, of u False m] st show ?thesis
    by (simp add: playAudioUrl_def)
qed

lemma timely_step:
  assumes "pinv s" "timely s e"
  shows "pinv (pstep e s) \<and> set (revoked (pstep e s)) \<union> set (live (pstep e s))
          = set (revoked s) \<union> set (live s) \<union> set (transient_urls [e])"
proof (cases e)
  case (Enqueue u r m)
  then show ?thesis using assms pinv_enqueue[of s u r m] enqueue_urls[of s u r m] by simp
next
  case StopAll
  then show ?thesis using step_stopAll[OF assms(1)] by simp
next
  case (PlayUrl u m)
  then show ?thesis using step_playUrl[OF assms(1)] by simp
next
  case (Fired a)
  then show ?thesis using step_fired[of s a] assms by simp
next
  case (PlayRejected a)
  then show ?thesis using step_rejected[of s a] assms by simp
next
  case (PlayStarted a)
  then show ?thesis using step_started[OF assms(1)] by simp
qed

lemma transient_urls_Cons: "set (transient_urls (e # es)) = set (transient_urls [e]) \<union> set (transient_urls es)"
  by (cases e) auto

lemma timely_run:
  "pinv s \<Longrightarrow> ptimely s es \<Longrightarrow>
   pinv (prun es s) \<and> set (revoked (prun es s)) \<union> set (live (prun es s))
          = set (revoked s) \<union> set (live s) \<union> set (transient_urls es)"
proof (induction es arbitrary: s)
  case Nil
  then show ?case by simp
next
  case (Cons e es)
  from Cons.prems have t: "timely s e" and r: "ptimely (pstep e s) es" by simp_all
  note st = timely_step[OF Cons.prems(1) t]
  from st have p: "pinv (pstep e s)" by simp
  from Cons.IH[OF p r] st show ?case
    by (simp only: prun.simps transient_urls_Cons[of e es]) blast
qed

lemma pinv_idle: "pinv idle"
  by (simp add: pinv_def plink_def idle_def live_def held_def)

text \<open>
  What holds when no callback runs late or twice. Start from the idle queue and let
  every transient item be enqueued with a fresh \<open>blob:\<close> URL and every playback callback
  be the one of the element that is playing. Then no URL is released twice, no URL that
  the queue still holds has been released, and the released URLs together with the held
  ones are exactly the transient URLs that were enqueued.
\<close>

lemma timely_release_discipline:
  assumes "ptimely idle es"
  shows "distinct (revoked (prun es idle))
         \<and> set (revoked (prun es idle)) \<inter> set (live (prun es idle)) = {}
         \<and> set (revoked (prun es idle)) \<union> set (live (prun es idle)) = set (transient_urls es)"
proof -
  note r = timely_run[OF pinv_idle assms]
  from r have "pinv (prun es idle)" by simp
  then have "distinct (revoked (prun es idle))"
    and "set (revoked (prun es idle)) \<inter> set (live (prun es idle)) = {}"
    by (auto simp: pinv_def)
  moreover have "set (revoked idle) \<union> set (live idle) = {}"
    by (simp add: idle_def live_def held_def)
  ultimately show ?thesis using r by simp
qed

section \<open>Facts about the chat view\<close>

lemmas chat_defs =
  initial_def onInputChange_def onSendText_def stopStreaming_def stopAudio_def abort_def
  trim_def is_ws_def chatStream_def voiceChat_def speak_def API_BASE_def demoPlatform_def
  demoParse_def toast_def deliver_def applyChunk_def applyLine_def applyDelta_def
  lineEvent_def getProp_def appended_def setText_def setAudioUrl_def finallySend_def
  catchSend_def onToggleRecord_def micGranted_def micDenied_def ondataavailable_def
  stopRecorder_def cancelRecording_def confirmRecording_def onSendVoice_def stopTracks_def
  onstop_def voiceSettled_def speakText_def speakSettled_def clickPlay_def
  deltaHel_def deltaLo_def endLine_def Let_def

lemma trim_blank: "\<forall>c \<in> set t. is_ws c \<Longrightarrow> trim t = []"
proof -
  assume a: "\<forall>c \<in> set t. is_ws c"
  then have d: "dropWhile is_ws t = []" by simp
  show ?thesis unfolding trim_def d by simp
qed

text \<open>
  C10. When the input is empty or consists of whitespace only, sending is a no-op: the
  handler returns before it touches anything, so the messages, the requests, the
  playback queue and the streams are what they were.
\<close>

theorem blank_send_is_noop:
  "\<forall>c \<in> set (input s). is_ws c \<Longrightarrow>
     onSendText P now s = s \<and> step P (SendText now) s = s"
  by (simp add: onSendText_def trim_blank)

theorem blank_send_is_noop_witness:
  "list_all is_ws (input (initial\<lparr>input := [CHR 0x20, CHR 0x09]\<rparr>))
   \<and> step demoPlatform (SendText 7) (initial\<lparr>input := [CHR 0x20, CHR 0x09]\<rparr>)
       = initial\<lparr>input := [CHR 0x20, CHR 0x09]\<rparr>"
  using blank_send_is_noop[of "initial\<lparr>input := [CHR 0x20, CHR 0x09]\<rparr>" demoPlatform 7]
  by (simp add: is_ws_def)

section \<open>The streaming request\<close>

lemma stopStreaming_requests: "requests (stopStreaming s) = requests s"
  by (simp add: stopStreaming_def abort_def split: option.splits)

text \<open>
  C8 (as amended). The streaming chat request carries the fixed user identifier
  \<open>demo\<close> and the trimmed query, and nothing else.
\<close>

theorem request_body:
  "trim (input s) \<noteq> [] \<Longrightarrow>
     requests (onSendText P now s)
       = requests s @ [(chatStream P,
                        JObj [(''user_id'', JStr ''demo''), (''query'', JStr (trim (input s)))])]"
  by (simp add: onSendText_def Let_def stopStreaming_requests stopAudio_def)

theorem request_body_witness:
  "trim (input (initial\<lparr>input := ''hi ''\<rparr>)) \<noteq> []
   \<and> requests (onSendText demoPlatform 0 (initial\<lparr>input := ''hi ''\<rparr>))
       = [(''https://ccripter-backend.up.railway.app/chat/stream'',
           JObj [(''user_id'', JStr ''demo''), (''query'', JStr ''hi'')])]"
  using request_body[of "initial\<lparr>input := ''hi ''\<rparr>" demoPlatform 0]
  by (simp add: trim_def is_ws_def initial_def chatStream_def API_BASE_def demoPlatform_def)

text \<open>
  C8 as stated fails: the second request of a conversation, sent when three messages
  precede it, has the two fields \<open>user_id\<close> and \<open>query\<close>; there is neither a
  conversation identifier nor a context window.
\<close>

theorem request_has_no_context_window:
  "length (messages (run demoPlatform [InputChange ''a'', SendText 0, InputChange ''b''] initial)) = 3
   \<and> requests (run demoPlatform [InputChange ''a'', SendText 0, InputChange ''b'', SendText 1] initial)
       = [(''https://ccripter-backend.up.railway.app/chat/stream'',
           JObj [(''user_id'', JStr ''demo''), (''query'', JStr ''a'')]),
          (''https://ccripter-backend.up.railway.app/chat/stream'',
           JObj [(''user_id'', JStr ''demo''), (''query'', JStr ''b'')])]"
  by (simp add: chat_defs playback_defs)

section \<open>Voice capture sessions\<close>

lemma run_append: "run P (xs @ ys) s = run P ys (run P xs s)"
  by (induction xs arbitrary: s) simp_all

lemma run_data:
  "r < length (recorders s) \<Longrightarrow> mr_state (recorders s ! r) = Recording \<Longrightarrow>
   run P (map (DataAvailable r) ds) s = s\<lparr>chunksRef := chunksRef s @ filter (\<lambda>d. d \<noteq> []) ds\<rparr>"
proof (induction ds arbitrary: s)
  case Nil
  then show ?case by simp
next
  case (Cons d ds)
  show ?case
  proof (cases "d = []")
    case True
    with Cons.prems have "step P (DataAvailable r d) s = s" by (simp add: ondataavailable_def)
    with Cons.IH[OF Cons.prems] True show ?thesis by simp
  next
    case False
    let ?s = "s\<lparr>chunksRef := chunksRef s @ [d]\<rparr>"
    from Cons.prems False have st: "step P (DataAvailable r d) s = ?s" by (simp add: ondataavailable_def)
    from Cons.prems have "r < length (recorders ?s)" "mr_state (recorders ?s ! r) = Recording" by simp_all
    from Cons.IH[OF this] st False show ?thesis by simp
  qed
qed

lemma concat_filter_nonempty: "concat (filter (\<lambda>d. d \<noteq> []) ds) = concat ds"
  by (induction ds) simp_all

lemma start_recording:
  assumes "\<not> recording s" "micRequests s = 0"
  shows "run P [ToggleRecord, MicGranted True] s
     = (stopStreaming (stopAudio s))
         \<lparr>micRequests := 0,
          recorders := recorders s @ [\<lparr>mr_state = Recording, stopQueued = False,
                                       tracksLive = True, voicePending = None\<rparr>],
          mediaRecorderRef := Some (length (recorders s)),
          chunksRef := [], recordActionRef := Send, recording := True\<rparr>"
proof -
  have f: "recorders (stopStreaming (stopAudio s)) = recorders s"
          "micRequests (stopStreaming (stopAudio s)) = micRequests s"
    by (simp_all add: stopStreaming_def stopAudio_def abort_def split: option.splits)
  show ?thesis using assms by (simp add: onToggleRecord_def micGranted_def Let_def f)
qed


lemma interrupt_fields:
  "recorders (stopStreaming (stopAudio s)) = recorders s"
  "micRequests (stopStreaming (stopAudio s)) = micRequests s"
  "voiceSent (stopStreaming (stopAudio s)) = voiceSent s"
  "requests (stopStreaming (stopAudio s)) = requests s"
  "messages (stopStreaming (stopAudio s)) = messages s"
  "nextUuid (stopStreaming (stopAudio s)) = nextUuid s"
  by (simp_all add: stopStreaming_def stopAudio_def abort_def split: option.splits)

lemma recorded:
  assumes "\<not> recording s" "micRequests s = 0"
  shows "run P ([ToggleRecord, MicGranted True] @ map (DataAvailable (length (recorders s))) ds) s
     = (stopStreaming (stopAudio s))
         \<lparr>micRequests := 0,
          recorders := recorders s @ [\<lparr>mr_state = Recording, stopQueued = False,
                                       tracksLive = True, voicePending = None\<rparr>],
          mediaRecorderRef := Some (length (recorders s)),
          chunksRef := filter (\<lambda>d. d \<noteq> []) ds, recordActionRef := Send, recording := True\<rparr>"
  unfolding run_append start_recording[OF assms]
  by (subst run_data) simp_all

text \<open>
  C6. \<open>onToggleRecord\<close> tests \<open>recording\<close>, which is set only after
  \<open>getUserMedia\<close> has resolved, and the recorders share \<open>mediaRecorderRef\<close>,
  \<open>chunksRef\<close> and \<open>recordActionRef\<close>. Two clicks on the microphone before the grant
  start two recorders. After both grants a cancel stops only the second one: the first
  keeps recording with its tracks live, out of reach of the view. When the cancel falls
  between the two grants, the second grant resets \<open>recordActionRef\<close> to \<open>send\<close>
  before the first recorder's \<open>stop\<close> event fires, and the cancelled session is
  delivered. And in a single confirmed session the tracks are still live when
  \<open>onstop\<close> has run up to \<open>await onSendVoice(blob)\<close>; they are stopped when the
  voice request has settled.
\<close>

theorem double_start_breaks_sessions:
  "recording (run demoPlatform [ToggleRecord, ToggleRecord, MicGranted True, MicGranted True,
        CancelRecording, DataAvailable 1 ''cd'', RecorderStopped 0 1] initial) = False
   \<and> mediaRecorderRef (run demoPlatform [ToggleRecord, ToggleRecord, MicGranted True,
        MicGranted True, CancelRecording, DataAvailable 1 ''cd'', RecorderStopped 0 1] initial)
       = Some 1
   \<and> map mr_state (recorders (run demoPlatform [ToggleRecord, ToggleRecord, MicGranted True,
        MicGranted True, CancelRecording, DataAvailable 1 ''cd'', RecorderStopped 0 1] initial))
       = [Recording, Inactive]
   \<and> map tracksLive (recorders (run demoPlatform [ToggleRecord, ToggleRecord, MicGranted True,
        MicGranted True, CancelRecording, DataAvailable 1 ''cd'', RecorderStopped 0 1] initial))
       = [True, False]
   \<and> voiceSent (run demoPlatform [ToggleRecord, ToggleRecord, MicGranted True, CancelRecording,
        MicGranted True, DataAvailable 0 ''ab'', RecorderStopped 0 0] initial) = [''ab'']
   \<and> voiceSent (run demoPlatform [ToggleRecord, MicGranted True, ConfirmRecording,
        DataAvailable 0 ''ab'', RecorderStopped 0 0] initial) = [''ab'']
   \<and> map tracksLive (recorders (run demoPlatform [ToggleRecord, MicGranted True,
        ConfirmRecording, DataAvailable 0 ''ab'', RecorderStopped 0 0] initial)) = [True]
   \<and> map tracksLive (recorders (run demoPlatform [ToggleRecord, MicGranted True,
        ConfirmRecording, DataAvailable 0 ''ab'', RecorderStopped 0 0,
        VoiceSettled 0 VoiceFailed] initial)) = [False]"
  by (simp add: chat_defs playback_defs)

text \<open>
  A single session that nothing interleaves with: the microphone is granted, chunks
  \<open>ds\<close> arrive, the user cancels or confirms, and the recorder's \<open>stop\<close> event fires.
  After a cancel \<open>onSendVoice\<close> has not been called and the tracks are stopped. After a
  confirm \<open>onSendVoice\<close> has been called once, with the concatenation of the chunks in
  the order of capture; once the voice request has settled, whatever its outcome, it
  still has been called once and the tracks are stopped.
\<close>

lemma recording_session_outcomes:
  assumes "\<not> recording s" "micRequests s = 0"
  shows "voiceSent (run P ([ToggleRecord, MicGranted True]
                          @ map (DataAvailable (length (recorders s))) ds
                          @ [CancelRecording, RecorderStopped now (length (recorders s))]) s)
           = voiceSent s
       \<and> \<not> tracksLive (recorders (run P ([ToggleRecord, MicGranted True]
                          @ map (DataAvailable (length (recorders s))) ds
                          @ [CancelRecording, RecorderStopped now (length (recorders s))]) s)
                        ! length (recorders s))
       \<and> voiceSent (run P ([ToggleRecord, MicGranted True]
                          @ map (DataAvailable (length (recorders s))) ds
                          @ [ConfirmRecording, RecorderStopped now (length (recorders s))]) s)
           = voiceSent s @ [concat ds]
       \<and> voiceSent (run P ([ToggleRecord, MicGranted True]
                          @ map (DataAvailable (length (recorders s))) ds
                          @ [ConfirmRecording, RecorderStopped now (length (recorders s)),
                             VoiceSettled (length (recorders s)) rep]) s)
           = voiceSent s @ [concat ds]
       \<and> \<not> tracksLive (recorders (run P ([ToggleRecord, MicGranted True]
                          @ map (DataAvailable (length (recorders s))) ds
                          @ [ConfirmRecording, RecorderStopped now (length (recorders s)),
                             VoiceSettled (length (recorders s)) rep]) s)
                        ! length (recorders s))"
proof -
  note rec = recorded[OF assms, of P ds]
  have app: "\<And>xs ys zs. run P (xs @ ys @ zs) s = run P zs (run P (xs @ ys) s)"
    by (simp add: run_append)
  have c1: "voiceSent (run P ([ToggleRecord, MicGranted True]
                          @ map (DataAvailable (length (recorders s))) ds
                          @ [CancelRecording, RecorderStopped now (length (recorders s))]) s)
           = voiceSent s"
    unfolding app rec
    by (simp add: cancelRecording_def stopRecorder_def onstop_def stopTracks_def interrupt_fields Let_def)
  have c2: "\<not> tracksLive (recorders (run P ([ToggleRecord, MicGranted True]
                          @ map (DataAvailable (length (recorders s))) ds
                          @ [CancelRecording, RecorderStopped now (length (recorders s))]) s)
                        ! length (recorders s))"
    unfolding app rec
    by (simp add: cancelRecording_def stopRecorder_def onstop_def stopTracks_def interrupt_fields Let_def)
  have c3: "voiceSent (run P ([ToggleRecord, MicGranted True]
                          @ map (DataAvailable (length (recorders s))) ds
                          @ [ConfirmRecording, RecorderStopped now (length (recorders s))]) s)
           = voiceSent s @ [concat ds]"
    unfolding app rec
    by (simp add: confirmRecording_def stopRecorder_def onstop_def onSendVoice_def interrupt_fields Let_def
          concat_filter_nonempty)
  have c4: "voiceSent (run P ([ToggleRecord, MicGranted True]
                          @ map (DataAvailable (length (recorders s))) ds
                          @ [ConfirmRecording, RecorderStopped now (length (recorders s)),
                             VoiceSettled (length (recorders s)) rep]) s)
           = voiceSent s @ [concat ds]"
    unfolding app rec
    by (cases rep)
       (simp_all add: confirmRecording_def stopRecorder_def onstop_def onSendVoice_def interrupt_fields Let_def
          concat_filter_nonempty voiceSettled_def stopTracks_def toast_def)
  have c5: "\<not> tracksLive (recorders (run P ([ToggleRecord, MicGranted True]
                          @ map (DataAvailable (length (recorders s))) ds
                          @ [ConfirmRecording, RecorderStopped now (length (recorders s)),
                             VoiceSettled (length (recorders s)) rep]) s)
                        ! length (recorders s))"
    unfolding app rec
    by (cases rep)
       (simp_all add: confirmRecording_def stopRecorder_def onstop_def onSendVoice_def interrupt_fields Let_def
          concat_filter_nonempty voiceSettled_def stopTracks_def toast_def)
  from c1 c2 c3 c4 c5 show ?thesis by blast
qed

section \<open>Reading the streamed reply\<close>

lemma setText_sync: "list_all (\<lambda>m. msg_id m = i \<longrightarrow> msg_text m = t) (setText i t ms)"
  by (induction ms) (simp_all add: setText_def)

lemma applyLine_props:
  assumes "c < length (streams s)" "inSync c s"
  shows "sameSession c s (applyLine P c s l)
         \<and> assistantText (streams (applyLine P c s l) ! c) = assistantText (streams s ! c) @ frag P l
         \<and> inSync c (applyLine P c s l)"
proof (cases "lineEvent P l")
  case (Delta d)
  with assms(1) show ?thesis
    by (simp add: applyLine_def applyDelta_def frag_def sameSession_def inSync_def setText_sync
          Let_def)
qed (use assms in \<open>simp_all add: applyLine_def frag_def sameSession_def\<close>)

lemma sameSession_trans: "sameSession c s t \<Longrightarrow> sameSession c t u \<Longrightarrow> sameSession c s u"
  by (simp add: sameSession_def)

lemma sameSession_refl: "sameSession c s s"
  by (simp add: sameSession_def)

lemma applyLines_props:
  "c < length (streams s) \<Longrightarrow> inSync c s \<Longrightarrow>
   sameSession c s (foldl (applyLine P c) s ls)
   \<and> assistantText (streams (foldl (applyLine P c) s ls) ! c)
       = assistantText (streams s ! c) @ concat (map (frag P) ls)
   \<and> inSync c (foldl (applyLine P c) s ls)"
proof (induction ls arbitrary: s)
  case Nil
  then show ?case by (simp add: sameSession_refl)
next
  case (Cons l ls)
  note one = applyLine_props[OF Cons.prems, of P l]
  from one Cons.prems(1) have len: "c < length (streams (applyLine P c s l))"
    by (simp add: sameSession_def)
  from one have sync: "inSync c (applyLine P c s l)" by simp
  note rest = Cons.IH[OF len sync]
  from one rest show ?case
    by (auto intro: sameSession_trans)
qed

lemma chunk_props:
  assumes "c < length (streams s)" "phase (streams s ! c) = Reading" "\<not> aborted (streams s ! c)"
    "inSync c s"
  shows "sameSession c s (step P (Stream c (Chunk d)) s)
   \<and> assistantText (streams (step P (Stream c (Chunk d)) s) ! c)
       = assistantText (streams s ! c) @ chunkDeltas P d
   \<and> inSync c (step P (Stream c (Chunk d)) s)"
proof -
  from assms have "step P (Stream c (Chunk d)) s = foldl (applyLine P c) s (split_nl d)"
    by (simp add: deliver_def applyChunk_def)
  with applyLines_props[OF assms(1) assms(4), of P "split_nl d"] show ?thesis
    by (simp add: chunkDeltas_def)
qed

lemma chunks_props:
  "c < length (streams s) \<Longrightarrow> phase (streams s ! c) = Reading \<Longrightarrow> \<not> aborted (streams s ! c) \<Longrightarrow>
    inSync c s \<Longrightarrow>
   sameSession c s (run P (map (\<lambda>d. Stream c (Chunk d)) ds) s)
   \<and> assistantText (streams (run P (map (\<lambda>d. Stream c (Chunk d)) ds) s) ! c)
       = assistantText (streams s ! c) @ concat (map (chunkDeltas P) ds)
   \<and> inSync c (run P (map (\<lambda>d. Stream c (Chunk d)) ds) s)"
proof (induction ds arbitrary: s)
  case Nil
  then show ?case by (simp add: sameSession_refl)
next
  case (Cons d ds)
  note one = chunk_props[OF Cons.prems, of P d]
  let ?t = "step P (Stream c (Chunk d)) s"
  from one Cons.prems have p: "c < length (streams ?t)" "phase (streams ?t ! c) = Reading"
    "\<not> aborted (streams ?t ! c)" "inSync c ?t"
    by (simp_all add: sameSession_def)
  note rest = Cons.IH[OF p]
  from one rest show ?case
    by (auto simp del: step.simps intro: sameSession_trans)
qed


lemma split_nl_ne: "split_nl xs \<noteq> []"
  by (induction xs) (auto split: list.splits)

lemma split_nl_append:
  "split_nl (xs @ CHR 0x0A # b) = split_nl xs @ split_nl b"
proof (induction xs)
  case Nil
  then show ?case by simp
next
  case (Cons c xs)
  obtain l ls where s: "split_nl xs = l # ls" using split_nl_ne[of xs] by (cases "split_nl xs") auto
  with Cons show ?case by simp
qed

lemma frag_empty: "frag P [] = []"
  by (simp add: frag_def lineEvent_def startsWith_def)

lemma chunkDeltas_append:
  assumes "endsNl a"
  shows "chunkDeltas P (a @ b) = chunkDeltas P a @ chunkDeltas P b"
proof (cases "a = []")
  case True
  then show ?thesis by (simp add: chunkDeltas_def frag_empty)
next
  case False
  with assms obtain xs where a: "a = xs @ [CHR 0x0A]"
    by (metis endsNl_def append_butlast_last_id)
  have "split_nl a = split_nl xs @ [[]]" unfolding a using split_nl_append[of xs "[]"] by simp
  moreover have "split_nl (a @ b) = split_nl xs @ split_nl b"
    unfolding a using split_nl_append[of xs b] by simp
  ultimately show ?thesis by (simp add: chunkDeltas_def frag_empty)
qed

lemma chunkDeltas_concat:
  "list_all endsNl ds \<Longrightarrow> concat (map (chunkDeltas P) ds) = chunkDeltas P (concat ds)"
proof (induction ds)
  case Nil
  then show ?case by (simp add: chunkDeltas_def frag_empty)
next
  case (Cons d ds)
  then show ?case by (simp add: chunkDeltas_append)
qed

lemma frag_delta:
  assumes "JSON_parse P p = Some (JObj kvs)" "map_of kvs ''type'' = Some (JStr ''delta'')"
    "map_of kvs ''text'' = Some (JStr t)"
  shows "frag P (''data: '' @ p) = t"
  using assms by (simp add: frag_def lineEvent_def startsWith_def getProp_def appended_def)

lemma frag_skip:
  "\<not> startsWith l ''data: '' \<Longrightarrow> frag P l = []"
  "JSON_parse P p = None \<Longrightarrow> frag P (''data: '' @ p) = []"
  "JSON_parse P p = Some JNull \<Longrightarrow> frag P (''data: '' @ p) = []"
  "JSON_parse P p = Some (JObj kvs) \<Longrightarrow> map_of kvs ''type'' \<noteq> Some (JStr ''delta'')
     \<Longrightarrow> frag P (''data: '' @ p) = []"
  by (simp_all add: frag_def lineEvent_def startsWith_def getProp_def)

text \<open>
  C4 (as amended). A stream is being read and every read delivers whole lines. Then the
  accumulated assistant text grows by the \<open>text\<close> fields of the \<open>delta\<close> lines of the
  response, in their order in the response, however the response was divided into
  chunks, and the assistant message shows it. A line counts when it starts with
  \<open>data: \<close>, its payload parses, and the payload is an object of type \<open>delta\<close>; a line
  without the prefix, an unparsable payload, \<open>null\<close> and an object of another type,
  the \<open>end\<close> event among them, add nothing and do not stop the reading. While chunks
  arrive the session stays as it is: still reading, \<open>loading\<close> and the registered
  controller untouched. It completes when the reader reports that the body is done:
  then \<open>loading\<close> is cleared and the controller released, and nothing reported for
  that session afterwards has any effect.
\<close>

theorem streamed_text_is_concatenation:
  assumes "c < length (streams s)" "phase (streams s ! c) = Reading"
    "\<not> aborted (streams s ! c)" "inSync c s" "list_all endsNl ds"
  shows "assistantText (streams (run P (map (\<lambda>d. Stream c (Chunk d)) ds) s) ! c)
           = assistantText (streams s ! c) @ concat (map (frag P) (split_nl (concat ds)))
       \<and> inSync c (run P (map (\<lambda>d. Stream c (Chunk d)) ds) s)
       \<and> phase (streams (run P (map (\<lambda>d. Stream c (Chunk d)) ds) s) ! c) = Reading
       \<and> loading (run P (map (\<lambda>d. Stream c (Chunk d)) ds) s) = loading s
       \<and> streamAbortRef (run P (map (\<lambda>d. Stream c (Chunk d)) ds) s) = streamAbortRef s
       \<and> phase (streams (run P (map (\<lambda>d. Stream c (Chunk d)) ds @ [Stream c Done]) s) ! c) = Settled
       \<and> \<not> loading (run P (map (\<lambda>d. Stream c (Chunk d)) ds @ [Stream c Done]) s)
       \<and> streamAbortRef (run P (map (\<lambda>d. Stream c (Chunk d)) ds @ [Stream c Done]) s) = None
       \<and> run P (map (\<lambda>d. Stream c (Chunk d)) ds @ [Stream c Done, Stream c ev]) s
           = run P (map (\<lambda>d. Stream c (Chunk d)) ds @ [Stream c Done]) s
       \<and> (JSON_parse P p = Some (JObj kvs) \<and> map_of kvs ''type'' = Some (JStr ''delta'')
            \<and> map_of kvs ''text'' = Some (JStr t) \<longrightarrow> frag P (''data: '' @ p) = t)
       \<and> (\<not> startsWith l ''data: '' \<longrightarrow> frag P l = [])
       \<and> (JSON_parse P p = None \<or> JSON_parse P p = Some JNull \<longrightarrow> frag P (''data: '' @ p) = [])
       \<and> (JSON_parse P p = Some (JObj kvs) \<and> map_of kvs ''type'' \<noteq> Some (JStr ''delta'')
            \<longrightarrow> frag P (''data: '' @ p) = [])"
proof -
  let ?t = "run P (map (\<lambda>d. Stream c (Chunk d)) ds) s"
  note ch = chunks_props[OF assms(1-4), of P ds]
  from ch assms have t: "c < length (streams ?t)" "phase (streams ?t ! c) = Reading"
    "\<not> aborted (streams ?t ! c)" "loading ?t = loading s" "streamAbortRef ?t = streamAbortRef s"
    by (simp_all add: sameSession_def)
  have d: "run P (map (\<lambda>d. Stream c (Chunk d)) ds @ [Stream c Done]) s = finallySend c ?t"
    using t by (simp add: run_append deliver_def)
  have d2: "run P (map (\<lambda>d. Stream c (Chunk d)) ds @ [Stream c Done, Stream c ev]) s
              = deliver P c ev (finallySend c ?t)"
    using t by (simp add: run_append deliver_def)
  have f: "phase (streams (finallySend c ?t) ! c) = Settled" "\<not> loading (finallySend c ?t)"
    "c < length (streams (finallySend c ?t))" "streamAbortRef (finallySend c ?t) = None"
    using t(1) by (simp_all add: finallySend_def)
  have g: "deliver P c ev (finallySend c ?t) = finallySend c ?t"
    using f by (simp add: deliver_def)
  have tx: "concat (map (chunkDeltas P) ds) = concat (map (frag P) (split_nl (concat ds)))"
    using chunkDeltas_concat[OF assms(5), of P] by (simp add: chunkDeltas_def)
  have k: "JSON_parse P p = Some (JObj kvs) \<and> map_of kvs ''type'' = Some (JStr ''delta'')
            \<and> map_of kvs ''text'' = Some (JStr t) \<longrightarrow> frag P (''data: '' @ p) = t"
    "\<not> startsWith l ''data: '' \<longrightarrow> frag P l = []"
    "JSON_parse P p = None \<or> JSON_parse P p = Some JNull \<longrightarrow> frag P (''data: '' @ p) = []"
    "JSON_parse P p = Some (JObj kvs) \<and> map_of kvs ''type'' \<noteq> Some (JStr ''delta'')
            \<longrightarrow> frag P (''data: '' @ p) = []"
    using frag_delta[where P=P and p=p and kvs=kvs and t=t] frag_skip(1)[where P=P and l=l]
      frag_skip(2,3)[where P=P and p=p] frag_skip(4)[where P=P and p=p and kvs=kvs]
    by blast+
  from ch t f k show ?thesis unfolding d d2 g tx by simp
qed

theorem streamed_text_is_concatenation_witness:
  "0 < length (streams (run demoPlatform [InputChange ''hi'', SendText 0,
                          Stream 0 (FetchResolved True True)] initial))
   \<and> phase (streams (run demoPlatform [InputChange ''hi'', SendText 0,
                          Stream 0 (FetchResolved True True)] initial) ! 0) = Reading
   \<and> \<not> aborted (streams (run demoPlatform [InputChange ''hi'', SendText 0,
                          Stream 0 (FetchResolved True True)] initial) ! 0)
   \<and> inSync 0 (run demoPlatform [InputChange ''hi'', SendText 0,
                          Stream 0 (FetchResolved True True)] initial)
   \<and> list_all endsNl [deltaHel, deltaLo, endLine]
   \<and> assistantText (streams (run demoPlatform
          [Stream 0 (Chunk deltaHel), Stream 0 (Chunk deltaLo), Stream 0 (Chunk endLine)]
          (run demoPlatform [InputChange ''hi'', SendText 0,
                          Stream 0 (FetchResolved True True)] initial)) ! 0) = ''Hello''
   \<and> streamAbortRef (run demoPlatform
          [Stream 0 (Chunk deltaHel), Stream 0 (Chunk deltaLo), Stream 0 (Chunk endLine),
           Stream 0 Done]
          (run demoPlatform [InputChange ''hi'', SendText 0,
                          Stream 0 (FetchResolved True True)] initial)) = None"
  using streamed_text_is_concatenation
          [where c=0 and P=demoPlatform and ds="[deltaHel, deltaLo, endLine]"
             and s="run demoPlatform [InputChange ''hi'', SendText 0,
                          Stream 0 (FetchResolved True True)] initial"]
  by (simp add: chat_defs playback_defs inSync_def frag_def startsWith_def endsNl_def)

text \<open>
  C4 as stated fails on the \<open>end\<close> event: its branch in the read loop is empty. After
  \<open>Hel\<close> and \<open>end\<close> the session is still reading, \<open>loading\<close> is still set and the
  controller is still registered; a \<open>delta\<close> that arrives afterwards is appended.
\<close>

theorem end_event_does_not_complete:
  "phase (streams (run demoPlatform [InputChange ''hi'', SendText 0,
        Stream 0 (FetchResolved True True), Stream 0 (Chunk deltaHel),
        Stream 0 (Chunk endLine)] initial) ! 0) = Reading
   \<and> loading (run demoPlatform [InputChange ''hi'', SendText 0,
        Stream 0 (FetchResolved True True), Stream 0 (Chunk deltaHel),
        Stream 0 (Chunk endLine)] initial)
   \<and> streamAbortRef (run demoPlatform [InputChange ''hi'', SendText 0,
        Stream 0 (FetchResolved True True), Stream 0 (Chunk deltaHel),
        Stream 0 (Chunk endLine)] initial) = Some 0
   \<and> textOf (Uuid 1) (run demoPlatform [InputChange ''hi'', SendText 0,
        Stream 0 (FetchResolved True True), Stream 0 (Chunk deltaHel),
        Stream 0 (Chunk endLine)] initial) = [''Hel'']
   \<and> textOf (Uuid 1) (run demoPlatform [InputChange ''hi'', SendText 0,
        Stream 0 (FetchResolved True True), Stream 0 (Chunk deltaHel),
        Stream 0 (Chunk endLine), Stream 0 (Chunk deltaLo)] initial) = [''Hello'']"
  by (simp add: chat_defs playback_defs textOf_def startsWith_def)

text \<open>
  The read loop keeps no remainder between reads. When a read ends inside a line, the
  two parts are parsed separately: here the line carrying \<open>Hel\<close> is cut after twenty
  characters and lost, and the text ends up as \<open>lo\<close>.
\<close>

lemma cut_line_is_dropped:
  "take 20 deltaHel @ drop 20 deltaHel = deltaHel
   \<and> textOf (Uuid 1) (run demoPlatform [InputChange ''hi'', SendText 0,
        Stream 0 (FetchResolved True True), Stream 0 (Chunk (take 20 deltaHel)),
        Stream 0 (Chunk (drop 20 deltaHel)), Stream 0 (Chunk deltaLo)] initial) = [''lo'']"
  by (simp add: chat_defs playback_defs textOf_def startsWith_def)

section \<open>Interrupting one activity by another\<close>

text \<open>
  C7. \<open>onToggleRecord\<close> stops audio and stream before it awaits the microphone, not
  after. The user has typed \<open>x\<close>, clicks the microphone and, while
  \<open>getUserMedia\<close> is pending and the input row is still rendered, sends the text. When
  the microphone is granted the recorder starts although the new stream is active, and
  the stream goes on filling its message during the recording.
\<close>

theorem stream_survives_recording_start:
  "activeStreams (run demoPlatform [InputChange ''x'', ToggleRecord, SendText 0, MicGranted True,
        Stream 0 (FetchResolved True True)] initial) = [0]
   \<and> activeRecordings (run demoPlatform [InputChange ''x'', ToggleRecord, SendText 0,
        MicGranted True, Stream 0 (FetchResolved True True)] initial) = [0]
   \<and> recording (run demoPlatform [InputChange ''x'', ToggleRecord, SendText 0,
        MicGranted True, Stream 0 (FetchResolved True True)] initial)
   \<and> textOf (Uuid 1) (run demoPlatform [InputChange ''x'', ToggleRecord, SendText 0,
        MicGranted True, Stream 0 (FetchResolved True True)] initial) = [[]]
   \<and> textOf (Uuid 1) (run demoPlatform [InputChange ''x'', ToggleRecord, SendText 0,
        MicGranted True, Stream 0 (FetchResolved True True), Stream 0 (Chunk deltaHel)] initial)
       = [''Hel'']"
  by (simp add: chat_defs playback_defs activeStreams_def activeRecordings_def textOf_def
        startsWith_def upt_rec)

section \<open>Aborting a stream\<close>

text \<open>
  The invariant \<open>wfChat\<close> holds in every reachable state; a quiet message keeps its
  text, and an aborted session keeps its accumulated text.
\<close>

lemma map_upd_same: "f y = f (xs ! i) \<Longrightarrow> map f (xs[i := y]) = map f xs"
proof (cases "i < length xs")
  case True
  assume "f y = f (xs ! i)"
  with True show ?thesis by (auto simp: list_eq_iff_nth_eq nth_list_update)
next
  case False
  then show ?thesis by (simp add: upd_beyond)
qed

lemma nth_upd_same: "f y = f (xs ! i) \<Longrightarrow> f (xs[i := y] ! j) = f (xs ! j)"
  by (cases "i < length xs"; cases "i = j"; simp add: upd_beyond)

lemma pres_weak:
  assumes "wfChat s" "quiet m s"
    and "textOf m s' = textOf m s"
    and "map assistantMsg (streams s') = map assistantMsg (streams s)"
    and "\<And>i. i < length (streams s) \<Longrightarrow> aborted (streams s ! i) \<Longrightarrow> aborted (streams s' ! i)"
    and "set (map voicePending (recorders s')) \<subseteq> insert None (set (map voicePending (recorders s)))"
    and "nextUuid s' = nextUuid s"
    and "streamAbortRef s' = streamAbortRef s \<or> streamAbortRef s' = None"
  shows "pres m s s'"
proof -
  from assms(4) have len: "length (streams s') = length (streams s)" by (rule map_eq_imp_length_eq)
  have am: "assistantMsg (streams s' ! i) = assistantMsg (streams s ! i)" if "i < length (streams s)" for i
    using assms(4) that len by (metis nth_map)
  have ids: "asstIds s' = asstIds s" using assms(4) by (simp add: asstIds_def)
  have vo: "voiceOk s' = voiceOk s" unfolding voiceOk_def fun_eq_iff ids assms(7) by simp
  have vn: "voiceOk s None" "notWriter m None" by (simp_all add: voiceOk_def notWriter_def)
  from assms(1) have "\<forall>v \<in> set (map voicePending (recorders s)). voiceOk s v"
    by (simp add: wfChat_def pendingVoice_def list_all_iff)
  with assms(6) vn have pv: "\<forall>v \<in> set (map voicePending (recorders s')). voiceOk s v" by blast
  from assms(2) have "\<forall>v \<in> set (map voicePending (recorders s)). notWriter m v"
    by (simp add: quiet_def pendingVoice_def list_all_iff)
  with assms(6) vn have pn: "\<forall>v \<in> set (map voicePending (recorders s')). notWriter m v" by blast
  have w: "wfChat s'" using assms(1) assms(8) len pv
    by (auto simp: wfChat_def ids vo assms(7) pendingVoice_def list_all_iff split: option.splits)
  from assms(2) have qs: "\<And>i. i < length (streams s) \<Longrightarrow>
      aborted (streams s ! i) \<or> assistantMsg (streams s ! i) \<noteq> m"
    by (simp add: quiet_def list_all_length)
  have "list_all (\<lambda>x. aborted x \<or> assistantMsg x \<noteq> m) (streams s')"
    unfolding list_all_length len using qs am assms(5) by metis
  with assms(2) pn have "quiet m s'"
    by (simp add: quiet_def assms(7) pendingVoice_def list_all_iff)
  with w assms(3) show ?thesis by (simp add: pres_def)
qed

lemma pres_trans: "pres m s t \<Longrightarrow> pres m t u \<Longrightarrow> pres m s u"
  by (simp add: pres_def)

lemma pres_refl: "wfChat s \<Longrightarrow> quiet m s \<Longrightarrow> pres m s s"
  by (simp add: pres_def)

lemma pres_other:
  assumes "wfChat s" "quiet m s"
    and "messages s' = messages s" "streams s' = streams s"
    and "map voicePending (recorders s') = map voicePending (recorders s)"
    and "nextUuid s' = nextUuid s" "streamAbortRef s' = streamAbortRef s"
  shows "pres m s s'"
proof (rule pres_weak[OF assms(1,2)])
  show "set (map voicePending (recorders s')) \<subseteq> insert None (set (map voicePending (recorders s)))"
    unfolding assms(5) by blast
qed (simp_all add: assms textOf_def)

lemma interrupt_pres:
  assumes "wfChat s" "quiet m s"
  shows "pres m s (stopStreaming (stopAudio s))"
proof (rule pres_weak[OF assms])
  fix i assume "i < length (streams s)" "aborted (streams s ! i)"
  then show "aborted (streams (stopStreaming (stopAudio s)) ! i)"
    by (auto simp: stopStreaming_def stopAudio_def abort_def nth_list_update split: option.splits)
qed (auto simp: stopStreaming_def stopAudio_def abort_def textOf_def map_upd_same split: option.splits)

lemma inputChange_pres:
  assumes "wfChat s" "quiet m s"
  shows "pres m s (step P (InputChange v) s)"
proof -
  have a: "pres m s (s\<lparr>input := v\<rparr>)" by (rule pres_other[OF assms]) simp_all
  then have "pres m (s\<lparr>input := v\<rparr>) (stopStreaming (stopAudio (s\<lparr>input := v\<rparr>)))"
    by (intro interrupt_pres) (simp_all add: pres_def)
  with a have "pres m s (onInputChange v s)" unfolding onInputChange_def by (rule pres_trans)
  with assms show ?thesis by (simp add: pres_refl)
qed

lemma toggle_pres:
  assumes "wfChat s" "quiet m s"
  shows "pres m s (step P ToggleRecord s)"
proof -
  note a = interrupt_pres[OF assms]
  have "pres m (stopStreaming (stopAudio s)) ((stopStreaming (stopAudio s))\<lparr>micRequests := Suc (micRequests s)\<rparr>)"
    using a by (intro pres_other) (simp_all add: pres_def)
  with a have "pres m s (onToggleRecord s) \<or> onToggleRecord s = s"
    unfolding onToggleRecord_def by (auto intro: pres_trans)
  with assms show ?thesis by (auto simp: pres_refl)
qed

lemma stopRecorder_pres:
  assumes "wfChat s" "quiet m s"
  shows "pres m s (stopRecorder s)"
  by (rule pres_other[OF assms])
     (auto simp: stopRecorder_def map_upd_same split: option.splits)

lemma cancel_pres:
  assumes "wfChat s" "quiet m s"
  shows "pres m s (step P CancelRecording s)"
proof -
  have a: "pres m s (s\<lparr>recordActionRef := Cancel\<rparr>)" by (rule pres_other[OF assms]) simp_all
  then have b: "pres m (s\<lparr>recordActionRef := Cancel\<rparr>) (stopRecorder (s\<lparr>recordActionRef := Cancel\<rparr>))"
    by (intro stopRecorder_pres) (simp_all add: pres_def)
  then have "pres m (stopRecorder (s\<lparr>recordActionRef := Cancel\<rparr>)) (cancelRecording s)"
    unfolding cancelRecording_def by (intro pres_other) (simp_all add: pres_def)
  with a b have "pres m s (cancelRecording s)" by (blast intro: pres_trans)
  with assms show ?thesis by (simp add: pres_refl)
qed

lemma confirm_pres:
  assumes "wfChat s" "quiet m s"
  shows "pres m s (step P ConfirmRecording s)"
proof -
  have a: "pres m s (s\<lparr>recordActionRef := Send\<rparr>)" by (rule pres_other[OF assms]) simp_all
  then have b: "pres m (s\<lparr>recordActionRef := Send\<rparr>) (stopRecorder (s\<lparr>recordActionRef := Send\<rparr>))"
    by (intro stopRecorder_pres) (simp_all add: pres_def)
  then have "pres m (stopRecorder (s\<lparr>recordActionRef := Send\<rparr>)) (confirmRecording s)"
    unfolding confirmRecording_def by (intro pres_other) (simp_all add: pres_def)
  with a b have "pres m s (confirmRecording s)" by (blast intro: pres_trans)
  with assms show ?thesis by (simp add: pres_refl)
qed

lemma data_pres:
  assumes "wfChat s" "quiet m s"
  shows "pres m s (step P (DataAvailable r d) s)"
  by (rule pres_other[OF assms]; auto simp: ondataavailable_def)+

lemma audio_pres:
  assumes "wfChat s" "quiet m s"
  shows "pres m s (step P (AudioFired a) s)" "pres m s (step P (AudioPlayRejected a) s)"
    "pres m s (step P (AudioPlayStarted a) s)"
  by (rule pres_other[OF assms]; simp)+

lemma speakSettled_pres:
  assumes "wfChat s" "quiet m s"
  shows "pres m s (step P (SpeakSettled k res) s)"
  by (rule pres_other[OF assms]; auto simp: speakSettled_def toast_def Let_def split: option.splits)+

lemma clickPlay_pres:
  assumes "wfChat s" "quiet m s"
  shows "pres m s (step P (ClickPlay i) s)"
  by (rule pres_other[OF assms]; auto simp: clickPlay_def speakText_def stopAudio_def Let_def split: option.splits)+

lemma mic_pres:
  assumes "wfChat s" "quiet m s"
  shows "pres m s (step P (MicGranted b) s)" "pres m s (step P MicDenied s)"
proof -
  show "pres m s (step P MicDenied s)"
    by (rule pres_other[OF assms]; simp add: micDenied_def toast_def)
  show "pres m s (step P (MicGranted b) s)"
  proof (rule pres_weak[OF assms])
    show "set (map voicePending (recorders (step P (MicGranted b) s)))
            \<subseteq> insert None (set (map voicePending (recorders s)))"
      by (auto simp: micGranted_def toast_def Let_def)
  qed (simp_all add: micGranted_def toast_def Let_def textOf_def)
qed

lemma isOld_mono: "isOld n x \<Longrightarrow> n \<le> n' \<Longrightarrow> isOld n' x"
  by (cases x) simp_all

lemma isOld_fresh: "isOld n x \<Longrightarrow> n \<le> k \<Longrightarrow> x \<noteq> Uuid k"
  by (cases x) auto

lemma notFresh_mono: "notFresh n x \<Longrightarrow> n \<le> n' \<Longrightarrow> notFresh n' x"
  by (cases x) simp_all

lemma notFresh_ne: "notFresh n x \<Longrightarrow> n \<le> k \<Longrightarrow> x \<noteq> Uuid k"
  by (cases x) auto

lemma texts_setText: "i \<noteq> m \<Longrightarrow>
   map msg_text (filter (\<lambda>x. msg_id x = m) (setText i t ms)) = map msg_text (filter (\<lambda>x. msg_id x = m) ms)"
  by (induction ms) (auto simp: setText_def)

lemma texts_setAudioUrl:
   "map msg_text (filter (\<lambda>x. msg_id x = m) (setAudioUrl i u ms)) = map msg_text (filter (\<lambda>x. msg_id x = m) ms)"
  by (induction ms) (auto simp: setAudioUrl_def)

lemma interrupt_proj:
  "messages (stopStreaming (stopAudio s)) = messages s"
  "nextUuid (stopStreaming (stopAudio s)) = nextUuid s"
  "recorders (stopStreaming (stopAudio s)) = recorders s"
  "map assistantMsg (streams (stopStreaming (stopAudio s))) = map assistantMsg (streams s)"
  "length (streams (stopStreaming (stopAudio s))) = length (streams s)"
  by (auto simp: stopStreaming_def stopAudio_def abort_def map_upd_same split: option.splits)

lemma interrupt_aborted:
  "aborted (streams s ! c) \<Longrightarrow> aborted (streams (stopStreaming (stopAudio s)) ! c)"
  by (auto simp: stopStreaming_def stopAudio_def abort_def nth_list_update split: option.splits)

lemma voiceOk_grow:
  assumes "voiceOk s v" "nextUuid s \<le> nextUuid s'"
    and "\<forall>x \<in> set (asstIds s'). x \<in> set (asstIds s) \<or> (\<exists>k \<ge> nextUuid s. x = Uuid k)"
  shows "voiceOk s' v"
proof (cases v)
  case None
  then show ?thesis by (simp add: voiceOk_def)
next
  case (Some p)
  obtain u a where p: "p = (u, a)" by (cases p)
  from assms(1) Some p have o: "isOld (nextUuid s) u" "u \<notin> set (asstIds s)"
    by (simp_all add: voiceOk_def)
  from o(1) assms(2) have "isOld (nextUuid s') u" by (rule isOld_mono)
  moreover have "u \<notin> set (asstIds s')"
  proof
    assume "u \<in> set (asstIds s')"
    with assms(3) o(2) obtain k where "k \<ge> nextUuid s" "u = Uuid k" by blast
    with o(1) show False by simp
  qed
  ultimately show ?thesis using Some p by (simp add: voiceOk_def)
qed

lemma quiet_grow:
  assumes "quiet m s" "nextUuid s \<le> nextUuid s'"
    and "\<forall>x \<in> set (streams s'). x \<in> set (streams s) \<or> assistantMsg x \<noteq> m"
    and "\<forall>v \<in> set (pendingVoice s'). v \<in> set (pendingVoice s) \<or> notWriter m v"
  shows "quiet m s'"
  using assms by (auto simp: quiet_def list_all_iff intro: notFresh_mono)

lemma sendText_pres:
  assumes "wfChat s" "quiet m s"
  shows "pres m s (step P (SendText now) s)"
proof (cases "recording s \<or> trim (input s) = []")
  case True
  then have "step P (SendText now) s = s" by (auto simp: onSendText_def)
  with assms show ?thesis by (simp add: pres_refl)
next
  case False
  define n where "n = nextUuid s"
  define s1 where "s1 = s\<lparr>input := [], nextUuid := Suc (Suc n),
       messages := messages s @ [\<lparr>msg_id = Uuid n, role = User, msg_text = trim (input s),
                        audioUrl = None, createdAt = now\<rparr>,
                     \<lparr>msg_id = Uuid (Suc n), role = Assistant, msg_text = [],
                        audioUrl = None, createdAt = now\<rparr>], loading := True\<rparr>"
  define s2 where "s2 = stopStreaming (stopAudio s1)"
  define s3 where "s3 = s2\<lparr>streams := streams s2 @ [\<lparr>aborted = False, phase = Fetching,
                                         assistantMsg = Uuid (Suc n), assistantText = []\<rparr>],
              streamAbortRef := Some (length (streams s2)),
              requests := requests s2 @ [(chatStream P,
                           JObj [(''user_id'', JStr ''demo''), (''query'', JStr (trim (input s)))])]\<rparr>"
  from False have st: "step P (SendText now) s = s3"
    by (simp add: onSendText_def Let_def s3_def s2_def s1_def n_def)
  from assms(2) have nf: "notFresh n m" by (simp add: quiet_def n_def)
  then have ne: "m \<noteq> Uuid n" "m \<noteq> Uuid (Suc n)" by (auto dest: notFresh_ne)
  have len2: "length (streams s2) = length (streams s)"
    by (simp add: s2_def interrupt_proj s1_def)
  have ids3: "asstIds s3 = asstIds s @ [Uuid (Suc n)]"
    by (simp add: s3_def asstIds_def s2_def interrupt_proj s1_def)
  have nu3: "nextUuid s3 = Suc (Suc n)" by (simp add: s3_def s2_def interrupt_proj s1_def)
  have pv3: "pendingVoice s3 = pendingVoice s"
    by (simp add: s3_def pendingVoice_def s2_def interrupt_proj s1_def)
  have msgs3: "messages s3 = messages s1" by (simp add: s3_def s2_def interrupt_proj)
  from assms(1) have w: "list_all (isOld n) (asstIds s)" "distinct (asstIds s)"
    "list_all (voiceOk s) (pendingVoice s)"
    by (simp_all add: wfChat_def n_def)
  have w1: "list_all (isOld (Suc (Suc n))) (asstIds s3)"
    using w(1) by (auto simp: ids3 list_all_iff intro: isOld_mono)
  have w2: "distinct (asstIds s3)"
    using w(1,2) by (auto simp: ids3 list_all_iff dest: isOld_fresh[where k="Suc n"])
  have g3: "voiceOk s3 v" if "voiceOk s v" for v
    using that by (rule voiceOk_grow) (auto simp: nu3 ids3 n_def)
  have w3: "list_all (voiceOk s3) (pendingVoice s3)"
    using w(3) g3 unfolding pv3 list_all_iff by blast
  have w4: "case streamAbortRef s3 of None \<Rightarrow> True | Some c \<Rightarrow> c < length (streams s3)"
    by (simp add: s3_def)
  have wf3: "wfChat s3" using w1 w2 w3 w4 by (simp add: wfChat_def nu3)
  have p1: "asstIds s1 = asstIds s" "nextUuid s1 = Suc (Suc n)"
    "streamAbortRef s1 = streamAbortRef s" "streams s1 = streams s"
    "pendingVoice s1 = pendingVoice s"
    by (simp_all add: s1_def asstIds_def pendingVoice_def)
  have wf1: "wfChat s1"
  proof -
    have a: "list_all (isOld (Suc (Suc n))) (asstIds s)"
      using w(1) by (auto simp: list_all_iff intro: isOld_mono)
    have g: "voiceOk s1 v" if "voiceOk s v" for v
      using that by (rule voiceOk_grow) (simp_all add: p1 n_def)
    have b: "list_all (voiceOk s1) (pendingVoice s)"
      using w(3) g unfolding list_all_iff by blast
    from assms(1) have r: "case streamAbortRef s of None \<Rightarrow> True | Some c \<Rightarrow> c < length (streams s)"
      by (simp add: wfChat_def)
    show ?thesis unfolding wfChat_def p1 using a w(2) b r by simp
  qed
  have q1: "quiet m s1"
    using assms(2) by (rule quiet_grow) (simp_all add: s1_def n_def pendingVoice_def)
  from interrupt_pres[OF wf1 q1] have q2: "quiet m s2" by (simp add: pres_def s2_def)
  have q3: "quiet m s3"
    using q2 by (rule quiet_grow) (auto simp: s3_def ne pendingVoice_def)
  have tx: "textOf m s3 = textOf m s"
    using ne by (simp add: textOf_def msgs3 s1_def)
  from wf3 q3 tx show ?thesis unfolding st by (simp add: pres_def)
qed


lemma writer_aborted:
  assumes "quiet m s" "c' < length (streams s)" "\<not> aborted (streams s ! c')"
  shows "assistantMsg (streams s ! c') \<noteq> m"
  using assms by (auto simp: quiet_def list_all_length)

lemma applyDelta_pres:
  assumes "wfChat s" "quiet m s" "c' < length (streams s)" "\<not> aborted (streams s ! c')"
  shows "pres m s (applyDelta c' d s)"
proof (rule pres_weak[OF assms(1,2)])
  note ne = writer_aborted[OF assms(2-4)]
  show "textOf m (applyDelta c' d s) = textOf m s"
    using ne by (simp add: applyDelta_def Let_def textOf_def texts_setText)
  fix i assume "i < length (streams s)" "aborted (streams s ! i)"
  then show "aborted (streams (applyDelta c' d s) ! i)"
    by (simp add: applyDelta_def Let_def nth_upd_same)
qed (auto simp: applyDelta_def Let_def map_upd_same)

lemma applyDelta_same:
  "length (streams (applyDelta c' d s)) = length (streams s)"
  "aborted (streams (applyDelta c' d s) ! i) = aborted (streams s ! i)"
  by (simp_all add: applyDelta_def Let_def nth_upd_same)

lemma applyLine_pres:
  assumes "wfChat s" "quiet m s" "c' < length (streams s)" "\<not> aborted (streams s ! c')"
  shows "pres m s (applyLine P c' s l) \<and> length (streams (applyLine P c' s l)) = length (streams s)
         \<and> \<not> aborted (streams (applyLine P c' s l) ! c')"
  using applyDelta_pres[OF assms] pres_refl[OF assms(1,2)] assms(4)
  by (cases "lineEvent P l") (simp_all add: applyLine_def applyDelta_same)

lemma applyLines_pres:
  "wfChat s \<Longrightarrow> quiet m s \<Longrightarrow> c' < length (streams s) \<Longrightarrow> \<not> aborted (streams s ! c') \<Longrightarrow>
   pres m s (foldl (applyLine P c') s ls)"
proof (induction ls arbitrary: s)
  case Nil
  then show ?case by (simp add: pres_refl)
next
  case (Cons l ls)
  note one = applyLine_pres[OF Cons.prems, of P l]
  let ?t = "applyLine P c' s l"
  from one Cons.prems have p: "wfChat ?t" "quiet m ?t" "c' < length (streams ?t)"
    "\<not> aborted (streams ?t ! c')"
    by (simp_all add: pres_def)
  from Cons.IH[OF p] one show ?case
    by (auto intro: pres_trans)
qed

lemma finallySend_pres:
  assumes "wfChat s" "quiet m s"
  shows "pres m s (finallySend c' s)"
proof (rule pres_weak[OF assms])
  fix i assume "i < length (streams s)" "aborted (streams s ! i)"
  then show "aborted (streams (finallySend c' s) ! i)"
    by (simp add: finallySend_def nth_upd_same)
qed (auto simp: finallySend_def textOf_def map_upd_same)

lemma catchSend_pres:
  assumes "wfChat s" "quiet m s"
  shows "pres m s (catchSend c' s)"
proof -
  have a: "pres m s (toast ''Chat failed'' s)"
    by (rule pres_other[OF assms]) (simp_all add: toast_def)
  then have "pres m (toast ''Chat failed'' s) (catchSend c' s)"
    unfolding catchSend_def by (intro finallySend_pres) (simp_all add: pres_def)
  with a show ?thesis by (rule pres_trans)
qed

lemma reading_pres:
  assumes "wfChat s" "quiet m s"
  shows "pres m s (s\<lparr>streams := (streams s)[c' := (streams s ! c')\<lparr>phase := Reading\<rparr>]\<rparr>)"
proof (rule pres_weak[OF assms])
  fix i assume "i < length (streams s)" "aborted (streams s ! i)"
  then show "aborted (streams (s\<lparr>streams := (streams s)[c' := (streams s ! c')\<lparr>phase := Reading\<rparr>]\<rparr>) ! i)"
    by (simp add: nth_upd_same)
qed (auto simp: textOf_def map_upd_same)

lemma deliver_pres:
  assumes "wfChat s" "quiet m s"
  shows "pres m s (step P (Stream c' ev) s)"
proof -
  note r = pres_refl[OF assms] and ca = catchSend_pres[OF assms, of c']
    and fi = finallySend_pres[OF assms, of c'] and re = reading_pres[OF assms, of c']
  show ?thesis
  proof (cases "c' < length (streams s) \<and> phase (streams s ! c') \<noteq> Settled")
    case False
    then show ?thesis using r by (auto simp: deliver_def)
  next
    case live: True
    show ?thesis
    proof (cases "aborted (streams s ! c')")
      case True
      with live r ca show ?thesis by (cases ev) (simp_all add: deliver_def)
    next
      case False
      from live have lt: "c' < length (streams s)" by simp
      note ch = applyLines_pres[OF assms lt False, of P]
      from live False r ca fi re ch show ?thesis
        by (cases ev; cases "phase (streams s ! c')") (simp_all add: deliver_def applyChunk_def)
    qed
  qed
qed

lemma stopTracks_pres:
  assumes "wfChat s" "quiet m s"
  shows "pres m s (stopTracks r s)"
  by (rule pres_other[OF assms]) (simp_all add: stopTracks_def map_upd_same)

lemma onSendVoice_pres:
  assumes "wfChat s" "quiet m s"
  shows "pres m s (onSendVoice P now r blob s)"
proof -
  let ?t = "onSendVoice P now r blob s"
  define n where "n = nextUuid s"
  from assms(2) have nf: "notFresh n m" by (simp add: quiet_def n_def)
  then have ne: "m \<noteq> Uuid n" "m \<noteq> Uuid (Suc n)" by (auto dest: notFresh_ne)
  have st: "streams ?t = streams s" "nextUuid ?t = Suc (Suc n)" "streamAbortRef ?t = streamAbortRef s"
    "asstIds ?t = asstIds s"
    by (simp_all add: onSendVoice_def Let_def n_def asstIds_def)
  have pv: "pendingVoice ?t = (pendingVoice s)[r := Some (Uuid n, Uuid (Suc n))]"
    by (simp add: onSendVoice_def Let_def n_def pendingVoice_def map_update)
  have mem: "v = Some (Uuid n, Uuid (Suc n)) \<or> v \<in> set (pendingVoice s)"
    if "v \<in> set (pendingVoice ?t)" for v
    using that set_update_subset_insert[of "pendingVoice s" r "Some (Uuid n, Uuid (Suc n))"]
    unfolding pv by blast
  from assms(1) have w: "list_all (isOld n) (asstIds s)" "distinct (asstIds s)"
    "list_all (voiceOk s) (pendingVoice s)"
    "case streamAbortRef s of None \<Rightarrow> True | Some c \<Rightarrow> c < length (streams s)"
    by (simp_all add: wfChat_def n_def)
  have new: "voiceOk ?t (Some (Uuid n, Uuid (Suc n)))"
    using w(1) by (auto simp: voiceOk_def st list_all_iff dest: isOld_fresh[where k=n])
  have grow: "voiceOk ?t v" if "voiceOk s v" for v
    using that by (rule voiceOk_grow) (simp_all add: st n_def)
  have w3: "list_all (voiceOk ?t) (pendingVoice ?t)"
    unfolding list_all_iff
  proof
    fix v assume "v \<in> set (pendingVoice ?t)"
    from mem[OF this] new grow w(3) show "voiceOk ?t v" by (auto simp: list_all_iff)
  qed
  have w1: "list_all (isOld (Suc (Suc n))) (asstIds ?t)"
    using w(1) by (auto simp: st list_all_iff intro: isOld_mono)
  have w4: "case streamAbortRef ?t of None \<Rightarrow> True | Some c \<Rightarrow> c < length (streams ?t)"
    using w(4) unfolding st .
  have wf': "wfChat ?t" using w1 w(2) w3 w4 by (simp add: wfChat_def st(2,4))
  have q: "quiet m ?t"
    using assms(2)
  proof (rule quiet_grow)
    have nw: "notWriter m (Some (Uuid n, Uuid (Suc n)))" using ne by (simp add: notWriter_def)
    show "\<forall>v\<in>set (pendingVoice ?t). v \<in> set (pendingVoice s) \<or> notWriter m v"
    proof
      fix v assume "v \<in> set (pendingVoice ?t)"
      from mem[OF this] nw show "v \<in> set (pendingVoice s) \<or> notWriter m v" by blast
    qed
  qed (simp_all add: st n_def)
  have tx: "textOf m ?t = textOf m s"
    using ne by (simp add: textOf_def onSendVoice_def Let_def n_def)
  from wf' q tx show ?thesis by (simp add: pres_def)
qed

lemma onstop_pres:
  assumes "wfChat s" "quiet m s"
  shows "pres m s (step P (RecorderStopped now r) s)"
proof (cases "r < length (recorders s) \<and> stopQueued (recorders s ! r)")
  case False
  then have "step P (RecorderStopped now r) s = s" by (auto simp: onstop_def)
  with assms show ?thesis by (simp add: pres_refl)
next
  case True
  define s1 where "s1 = s\<lparr>recorders := (recorders s)[r := (recorders s ! r)\<lparr>stopQueued := False\<rparr>],
                            chunksRef := []\<rparr>"
  have a: "pres m s s1"
    by (rule pres_other[OF assms]) (simp_all add: s1_def map_upd_same)
  then have g: "wfChat s1" "quiet m s1" by (simp_all add: pres_def)
  have "step P (RecorderStopped now r) s
          = (if recordActionRef s = Send then onSendVoice P now r (concat (chunksRef s)) s1
             else stopTracks r s1)"
    using True by (simp add: onstop_def Let_def s1_def)
  with a onSendVoice_pres[OF g, of P now r "concat (chunksRef s)"] stopTracks_pres[OF g, of r]
  show ?thesis by (auto intro: pres_trans)
qed

lemma voiceSettled_pres:
  assumes "wfChat s" "quiet m s"
  shows "pres m s (step P (VoiceSettled r rep) s)"
proof (cases "r < length (recorders s) \<and> voicePending (recorders s ! r) \<noteq> None")
  case False
  then have "step P (VoiceSettled r rep) s = s"
    by (cases "voicePending (recorders s ! r)") (auto simp: voiceSettled_def)
  with assms show ?thesis by (simp add: pres_refl)
next
  case True
  then obtain u a where ua: "voicePending (recorders s ! r) = Some (u, a)" and r: "r < length (recorders s)"
    by auto
  from r have "voicePending (recorders s ! r) \<in> set (pendingVoice s)"
    unfolding pendingVoice_def by (metis length_map nth_map nth_mem)
  with ua have "Some (u, a) \<in> set (pendingVoice s)" by simp
  with assms(2) have "notWriter m (Some (u, a))" by (simp add: quiet_def list_all_iff)
  then have ne: "u \<noteq> m" by (simp add: notWriter_def)
  let ?t = "step P (VoiceSettled r rep) s"
  have pvs: "map voicePending (recorders ?t) = (map voicePending (recorders s))[r := None]"
    using r ua
    by (cases rep) (simp_all add: voiceSettled_def Let_def toast_def stopTracks_def map_update)
  show ?thesis
  proof (rule pres_weak[OF assms])
    show "textOf m ?t = textOf m s"
      using r ua ne
      by (cases rep)
         (simp_all add: voiceSettled_def Let_def toast_def stopTracks_def textOf_def
            texts_setText texts_setAudioUrl)
    show "set (map voicePending (recorders ?t)) \<subseteq> insert None (set (map voicePending (recorders s)))"
      unfolding pvs by (rule set_update_subset_insert)
    fix i assume "i < length (streams s)" "aborted (streams s ! i)"
    then show "aborted (streams ?t ! i)"
      using r ua
      by (cases rep) (simp_all add: voiceSettled_def Let_def toast_def stopTracks_def)
  qed (use r ua in \<open>cases rep; simp add: voiceSettled_def Let_def toast_def stopTracks_def\<close>)+
qed

lemma step_pres:
  assumes "wfChat s" "quiet m s"
  shows "pres m s (step P e s)"
proof (cases e)
  case (InputChange v) then show ?thesis using inputChange_pres[OF assms] by simp
next
  case (SendText n) then show ?thesis using sendText_pres[OF assms] by simp
next
  case ToggleRecord then show ?thesis using toggle_pres[OF assms] by simp
next
  case CancelRecording then show ?thesis using cancel_pres[OF assms] by simp
next
  case ConfirmRecording then show ?thesis using confirm_pres[OF assms] by simp
next
  case (ClickPlay i) then show ?thesis using clickPlay_pres[OF assms] by simp
next
  case (Stream c' ev) then show ?thesis using deliver_pres[OF assms] by simp
next
  case (MicGranted b) then show ?thesis using mic_pres(1)[OF assms] by simp
next
  case MicDenied then show ?thesis using mic_pres(2)[OF assms] by simp
next
  case (DataAvailable r d) then show ?thesis using data_pres[OF assms] by simp
next
  case (RecorderStopped n r) then show ?thesis using onstop_pres[OF assms] by simp
next
  case (VoiceSettled r rep) then show ?thesis using voiceSettled_pres[OF assms] by simp
next
  case (SpeakSettled k res) then show ?thesis using speakSettled_pres[OF assms] by simp
next
  case (AudioFired a) then show ?thesis using audio_pres(1)[OF assms] by simp
next
  case (AudioPlayRejected a) then show ?thesis using audio_pres(2)[OF assms] by simp
next
  case (AudioPlayStarted a) then show ?thesis using audio_pres(3)[OF assms] by simp
qed

lemma run_pres:
  "wfChat s \<Longrightarrow> quiet m s \<Longrightarrow> pres m s (run P es s)"
proof (induction es arbitrary: s)
  case Nil
  then show ?case by (simp add: pres_refl)
next
  case (Cons e es)
  note one = step_pres[OF Cons.prems, of P e]
  then have "wfChat (step P e s)" "quiet m (step P e s)" by (simp_all add: pres_def)
  from Cons.IH[OF this] one show ?case by (auto simp del: step.simps intro: pres_trans)
qed

lemma quiet_Welcome: "wfChat s \<Longrightarrow> quiet Welcome s"
  by (auto simp: quiet_def wfChat_def list_all_iff asstIds_def pendingVoice_def voiceOk_def
        notWriter_def split: option.splits)

lemma wfChat_initial: "wfChat initial"
  by (simp add: wfChat_def initial_def asstIds_def pendingVoice_def)

lemma wfChat_reachable: "wfChat (run P es initial)"
  using run_pres[OF wfChat_initial quiet_Welcome[OF wfChat_initial], of P es]
  by (simp add: pres_def)


lemma stays_refl: "c < length (streams s) \<Longrightarrow> aborted (streams s ! c) \<Longrightarrow> stays c s s"
  by (simp add: stays_def)

lemma stays_trans: "stays c s t \<Longrightarrow> stays c t u \<Longrightarrow> stays c s u"
  by (simp add: stays_def)

lemma stays_same: "c < length (streams s) \<Longrightarrow> aborted (streams s ! c) \<Longrightarrow> streams s' = streams s \<Longrightarrow> stays c s s'"
  by (simp add: stays_def)

lemma stays_interrupt:
  assumes "c < length (streams s)" "aborted (streams s ! c)"
  shows "stays c s (stopStreaming (stopAudio s))"
  using assms
  by (auto simp: stays_def stopStreaming_def stopAudio_def abort_def nth_upd_same nth_list_update
        split: option.splits)

lemma stays_applyLines:
  "c < length (streams s) \<Longrightarrow> aborted (streams s ! c) \<Longrightarrow> c' \<noteq> c \<Longrightarrow>
   stays c s (foldl (applyLine P c') s ls)"
proof (induction ls arbitrary: s)
  case Nil
  then show ?case by (simp add: stays_refl)
next
  case (Cons l ls)
  let ?t = "applyLine P c' s l"
  have one: "stays c s ?t"
    using Cons.prems
    by (cases "lineEvent P l") (simp_all add: applyLine_def applyDelta_def Let_def stays_def)
  then have "c < length (streams ?t)" "aborted (streams ?t ! c)" by (simp_all add: stays_def)
  from Cons.IH[OF this Cons.prems(3)] one show ?case by (auto intro: stays_trans)
qed

lemma stays_deliver:
  assumes "c < length (streams s)" "aborted (streams s ! c)"
  shows "stays c s (deliver P c' ev s)"
proof (cases "c' = c")
  case True
  with assms show ?thesis
    by (cases ev)
       (simp_all add: deliver_def catchSend_def finallySend_def toast_def stays_def)
next
  case False
  note ch = stays_applyLines[OF assms False, of P]
  from assms False ch show ?thesis
    by (cases ev; cases "phase (streams s ! c')")
       (simp_all add: deliver_def catchSend_def finallySend_def toast_def stays_def applyChunk_def)
qed

lemma stays_sendText:
  assumes "c < length (streams s)" "aborted (streams s ! c)"
  shows "stays c s (onSendText P now s)"
proof (cases "trim (input s) = []")
  case True
  with assms show ?thesis by (simp add: onSendText_def stays_refl)
next
  case False
  define s1 where "s1 = s\<lparr>input := [], nextUuid := Suc (Suc (nextUuid s)),
       messages := messages s @ [\<lparr>msg_id = Uuid (nextUuid s), role = User, msg_text = trim (input s),
                        audioUrl = None, createdAt = now\<rparr>,
                     \<lparr>msg_id = Uuid (Suc (nextUuid s)), role = Assistant, msg_text = [],
                        audioUrl = None, createdAt = now\<rparr>], loading := True\<rparr>"
  have a: "stays c s s1" using assms by (simp add: stays_def s1_def)
  then have "stays c s1 (stopStreaming (stopAudio s1))"
    by (intro stays_interrupt) (simp_all add: stays_def)
  with a have b: "stays c s (stopStreaming (stopAudio s1))" by (rule stays_trans)
  from False have "streams (onSendText P now s)
      = streams (stopStreaming (stopAudio s1)) @ [\<lparr>aborted = False, phase = Fetching,
                assistantMsg = Uuid (Suc (nextUuid s)), assistantText = []\<rparr>]"
    by (simp add: onSendText_def Let_def s1_def)
  with b show ?thesis by (simp add: stays_def nth_append)
qed

lemma stays_step:
  assumes "c < length (streams s)" "aborted (streams s ! c)"
  shows "stays c s (step P e s)"
proof (cases e)
  case (InputChange v)
  have "stays c s (s\<lparr>input := v\<rparr>)" using assms by (simp add: stays_def)
  moreover have "stays c (s\<lparr>input := v\<rparr>) (onInputChange v s)"
    unfolding onInputChange_def using assms by (intro stays_interrupt) simp_all
  ultimately show ?thesis using InputChange assms by (auto intro: stays_trans stays_refl)
next
  case (SendText n)
  then show ?thesis using stays_sendText[OF assms] stays_refl[OF assms] by simp
next
  case ToggleRecord
  have "stays c s (onToggleRecord s)"
    using stays_interrupt[OF assms] stays_refl[OF assms] by (simp add: onToggleRecord_def stays_def)
  with ToggleRecord assms show ?thesis by (simp add: stays_refl)
next
  case CancelRecording
  then show ?thesis using assms
    by (intro stays_same) (auto simp: cancelRecording_def stopRecorder_def split: option.splits)
next
  case ConfirmRecording
  then show ?thesis using assms
    by (intro stays_same) (auto simp: confirmRecording_def stopRecorder_def split: option.splits)
next
  case (ClickPlay i)
  then show ?thesis using assms
    by (intro stays_same)
       (auto simp: clickPlay_def speakText_def stopAudio_def Let_def split: option.splits)
next
  case (Stream c' ev)
  then show ?thesis using stays_deliver[OF assms] by simp
next
  case (MicGranted b)
  then show ?thesis using assms
    by (intro stays_same) (auto simp: micGranted_def toast_def Let_def)
next
  case MicDenied
  then show ?thesis using assms by (intro stays_same) (auto simp: micDenied_def toast_def)
next
  case (DataAvailable r d)
  then show ?thesis using assms by (intro stays_same) (auto simp: ondataavailable_def)
next
  case (RecorderStopped n r)
  then show ?thesis using assms
    by (intro stays_same) (auto simp: onstop_def onSendVoice_def stopTracks_def Let_def)
next
  case (VoiceSettled r rep)
  then show ?thesis using assms
    by (intro stays_same)
       (auto simp: voiceSettled_def toast_def stopTracks_def Let_def
             split: option.splits voice_reply.splits)
next
  case (SpeakSettled k res)
  then show ?thesis using assms
    by (intro stays_same) (auto simp: speakSettled_def toast_def Let_def split: option.splits)
next
  case (AudioFired a)
  then show ?thesis using assms by (intro stays_same) auto
next
  case (AudioPlayRejected a)
  then show ?thesis using assms by (intro stays_same) auto
next
  case (AudioPlayStarted a)
  then show ?thesis using assms by (intro stays_same) auto
qed

lemma stays_run:
  "c < length (streams s) \<Longrightarrow> aborted (streams s ! c) \<Longrightarrow> stays c s (run P es s)"
proof (induction es arbitrary: s)
  case Nil
  then show ?case by (simp add: stays_refl)
next
  case (Cons e es)
  note one = stays_step[OF Cons.prems, of P e]
  then have "c < length (streams (step P e s))" "aborted (streams (step P e s) ! c)"
    by (simp_all add: stays_def)
  from Cons.IH[OF this] one show ?case by (auto simp del: step.simps intro: stays_trans)
qed


lemma stopStreaming_pres:
  assumes "wfChat s" "quiet m s"
  shows "pres m s (stopStreaming s)"
proof (rule pres_weak[OF assms])
  fix i assume "i < length (streams s)" "aborted (streams s ! i)"
  then show "aborted (streams (stopStreaming s) ! i)"
    by (auto simp: stopStreaming_def abort_def nth_list_update split: option.splits)
qed (auto simp: stopStreaming_def abort_def textOf_def map_upd_same split: option.splits)

lemma aborted_quiet:
  assumes "wfChat s" "c < length (streams s)" "aborted (streams s ! c)"
  shows "quiet (assistantMsg (streams s ! c)) s"
proof -
  let ?m = "assistantMsg (streams s ! c)"
  from assms(1) have w: "list_all (isOld (nextUuid s)) (asstIds s)" "distinct (map assistantMsg (streams s))"
    "list_all (voiceOk s) (pendingVoice s)"
    by (simp_all add: wfChat_def asstIds_def)
  from assms(2) have mem: "?m \<in> set (asstIds s)"
    unfolding asstIds_def by (metis length_map nth_map nth_mem)
  with w(1) have "isOld (nextUuid s) ?m" by (simp add: list_all_iff)
  then have nf: "notFresh (nextUuid s) ?m" by (cases ?m) simp_all
  have st: "aborted (streams s ! i) \<or> assistantMsg (streams s ! i) \<noteq> ?m" if i: "i < length (streams s)" for i
  proof (cases "i = c")
    case True
    with assms(3) show ?thesis by simp
  next
    case False
    have "map assistantMsg (streams s) ! i \<noteq> map assistantMsg (streams s) ! c"
    proof
      assume e: "map assistantMsg (streams s) ! i = map assistantMsg (streams s) ! c"
      have "i = c"
        by (rule iffD1[OF nth_eq_iff_index_eq[OF w(2) _ _] e]) (simp_all add: i assms(2))
      with False show False by simp
    qed
    with i assms(2) show ?thesis by simp
  qed
  have pv: "notWriter ?m v" if "v \<in> set (pendingVoice s)" for v
  proof -
    from that w(3) have "voiceOk s v" by (simp add: list_all_iff)
    with mem show ?thesis by (auto simp: voiceOk_def notWriter_def split: option.splits)
  qed
  from pv have "list_all (notWriter ?m) (pendingVoice s)" by (simp add: list_all_iff)
  with nf st show ?thesis by (simp add: quiet_def list_all_length)
qed

lemma aborted_text_frozen:
  assumes "wfChat s" "c < length (streams s)" "aborted (streams s ! c)"
  shows "textOf (assistantMsg (streams s ! c)) (run P es s) = textOf (assistantMsg (streams s ! c)) s
         \<and> assistantText (streams (run P es s) ! c) = assistantText (streams s ! c)"
  using run_pres[OF assms(1) aborted_quiet[OF assms], of P es] stays_run[OF assms(2,3), of P es]
  by (simp add: pres_def stays_def)

lemma abort_pres:
  assumes "wfChat s" "quiet m s"
  shows "pres m s (abort c s)"
proof (rule pres_weak[OF assms])
  fix i assume "i < length (streams s)" "aborted (streams s ! i)"
  then show "aborted (streams (abort c s) ! i)"
    by (auto simp: abort_def nth_list_update)
qed (auto simp: abort_def textOf_def map_upd_same)

lemma aborted_ignores:
  assumes "c < length (streams s)" "aborted (streams s ! c)" "ev \<noteq> Rejected"
  shows "step P (Stream c ev) (run P es s) = run P es s"
proof -
  from stays_run[OF assms(1,2), of P es]
  have "c < length (streams (run P es s))" "aborted (streams (run P es s) ! c)"
    by (simp_all add: stays_def)
  with assms(3) show ?thesis by (cases ev) (simp_all add: deliver_def)
qed

lemma stopStreaming_abort:
  "streamAbortRef s = Some c \<Longrightarrow> stopStreaming s = (abort c s)\<lparr>streamAbortRef := None\<rparr>"
  by (simp add: stopStreaming_def)

text \<open>
  C5. Let the view be in any state it can reach and \<open>c\<close> one of its stream sessions.
  Once the session's controller has been aborted, whatever happens afterwards (more
  chunks or the end of the body reported for that session, its rejection, other sends,
  recordings, playback), the text of the message it was populating stays what it was at
  the moment of the abort, and so does the text the session had accumulated: no delta
  is applied any more and nothing is rolled back. Nothing that is reported for the
  session has any effect, except the rejection of its pending \<open>fetch\<close> or \<open>read\<close>,
  which runs the \<open>catch\<close> and \<open>finally\<close> blocks. \<open>stopStreaming\<close> is that abort
  for the session registered in \<open>streamAbortRef\<close>, and the same holds after it.
\<close>

theorem abort_freezes_message:
  assumes "c < length (streams (run P es0 initial))"
  shows "aborted (streams (abort c (run P es0 initial)) ! c)
       \<and> textOf (assistantMsg (streams (run P es0 initial) ! c))
                (run P es (abort c (run P es0 initial)))
           = textOf (assistantMsg (streams (run P es0 initial) ! c)) (run P es0 initial)
       \<and> assistantText (streams (run P es (abort c (run P es0 initial))) ! c)
           = assistantText (streams (run P es0 initial) ! c)
       \<and> (ev \<noteq> Rejected \<longrightarrow>
            step P (Stream c ev) (run P es (abort c (run P es0 initial)))
              = run P es (abort c (run P es0 initial)))
       \<and> (streamAbortRef (run P es0 initial) = Some c \<longrightarrow>
            aborted (streams (stopStreaming (run P es0 initial)) ! c)
            \<and> textOf (assistantMsg (streams (run P es0 initial) ! c))
                     (run P es (stopStreaming (run P es0 initial)))
                = textOf (assistantMsg (streams (run P es0 initial) ! c)) (run P es0 initial)
            \<and> assistantText (streams (run P es (stopStreaming (run P es0 initial))) ! c)
                = assistantText (streams (run P es0 initial) ! c)
            \<and> (ev \<noteq> Rejected \<longrightarrow>
                 step P (Stream c ev) (run P es (stopStreaming (run P es0 initial)))
                   = run P es (stopStreaming (run P es0 initial))))"
proof -
  let ?s = "run P es0 initial"
  note w = wfChat_reachable[of P es0]
  have part: "aborted (streams a ! c)
       \<and> textOf (assistantMsg (streams ?s ! c)) (run P es a) = textOf (assistantMsg (streams ?s ! c)) ?s
       \<and> assistantText (streams (run P es a) ! c) = assistantText (streams ?s ! c)
       \<and> (ev \<noteq> Rejected \<longrightarrow> step P (Stream c ev) (run P es a) = run P es a)"
    if wa: "wfChat a" and ab: "aborted (streams a ! c)" "c < length (streams a)"
      "assistantMsg (streams a ! c) = assistantMsg (streams ?s ! c)"
      "assistantText (streams a ! c) = assistantText (streams ?s ! c)"
      "messages a = messages ?s" for a
    using aborted_text_frozen[OF wa ab(2) ab(1), of P es] ab
      aborted_ignores[OF ab(2) ab(1), of ev P es]
    by (simp add: textOf_def)
  have one: "aborted (streams (abort c ?s) ! c)
       \<and> textOf (assistantMsg (streams ?s ! c)) (run P es (abort c ?s))
           = textOf (assistantMsg (streams ?s ! c)) ?s
       \<and> assistantText (streams (run P es (abort c ?s)) ! c) = assistantText (streams ?s ! c)
       \<and> (ev \<noteq> Rejected \<longrightarrow> step P (Stream c ev) (run P es (abort c ?s)) = run P es (abort c ?s))"
  proof (rule part)
    from abort_pres[OF w quiet_Welcome[OF w]] show "wfChat (abort c ?s)" by (simp add: pres_def)
  qed (use assms in \<open>simp_all add: abort_def\<close>)
  have two: "aborted (streams (stopStreaming ?s) ! c)
       \<and> textOf (assistantMsg (streams ?s ! c)) (run P es (stopStreaming ?s))
           = textOf (assistantMsg (streams ?s ! c)) ?s
       \<and> assistantText (streams (run P es (stopStreaming ?s)) ! c) = assistantText (streams ?s ! c)
       \<and> (ev \<noteq> Rejected \<longrightarrow>
            step P (Stream c ev) (run P es (stopStreaming ?s)) = run P es (stopStreaming ?s))"
    if r: "streamAbortRef ?s = Some c"
  proof (rule part)
    from stopStreaming_pres[OF w quiet_Welcome[OF w]] show "wfChat (stopStreaming ?s)"
      by (simp add: pres_def)
  qed (use assms r in \<open>simp_all add: stopStreaming_def abort_def\<close>)
  from one two show ?thesis by blast
qed

theorem abort_freezes_message_witness:
  "0 < length (streams (run demoPlatform [InputChange ''hi'', SendText 0,
       Stream 0 (FetchResolved True True), Stream 0 (Chunk deltaHel)] initial))
   \<and> streamAbortRef (run demoPlatform [InputChange ''hi'', SendText 0,
       Stream 0 (FetchResolved True True), Stream 0 (Chunk deltaHel)] initial) = Some 0
   \<and> textOf (Uuid 1) (run demoPlatform [InputChange ''hi'', SendText 0,
       Stream 0 (FetchResolved True True), Stream 0 (Chunk deltaHel)] initial) = [''Hel'']
   \<and> textOf (Uuid 1)
        (run demoPlatform [Stream 0 (Chunk deltaLo), Stream 0 Done, Stream 0 Rejected]
           (stopStreaming (run demoPlatform [InputChange ''hi'', SendText 0,
              Stream 0 (FetchResolved True True), Stream 0 (Chunk deltaHel)] initial)))
      = [''Hel'']"
proof -
  let ?S = "run demoPlatform [InputChange ''hi'', SendText 0,
       Stream 0 (FetchResolved True True), Stream 0 (Chunk deltaHel)] initial"
  let ?es = "[Stream 0 (Chunk deltaLo), Stream 0 Done, Stream 0 Rejected]"
  have h: "0 < length (streams ?S)"
    by (simp add: chat_defs playback_defs startsWith_def)
  have r: "streamAbortRef ?S = Some 0"
    by (simp add: chat_defs playback_defs startsWith_def)
  have m: "assistantMsg (streams ?S ! 0) = Uuid 1"
    by (simp add: chat_defs playback_defs startsWith_def)
  have x: "textOf (Uuid 1) ?S = [''Hel'']"
    by (simp add: chat_defs playback_defs textOf_def startsWith_def)
  from abort_freezes_message[OF h, where es="?es" and ev=Done] r
  have "textOf (assistantMsg (streams ?S ! 0)) (run demoPlatform ?es (stopStreaming ?S))
          = textOf (assistantMsg (streams ?S ! 0)) ?S"
    by blast
  then have "textOf (Uuid 1) (run demoPlatform ?es (stopStreaming ?S)) = [''Hel'']"
    unfolding m x .
  with h r x show ?thesis by blast
qed

section \<open>Releasing a transient URL\<close>

text \<open>
  C1. When a transient item fails to load, the browser dispatches \<open>error\<close> to the
  listener and rejects the promise of \<open>audio.play()\<close>. The listener runs \<open>onEnded\<close>,
  which releases the URL; the \<open>.catch\<close> runs \<open>onEnded\<close> again, and the URL is released
  a second time. The same happens from the view: the play button of the welcome message
  asks for speech, the reply is enqueued as a transient item with its object URL, and
  the two callbacks of its element release that URL twice.
\<close>

theorem transient_released_twice:
  "revoked (prun [Enqueue ''blob:a'' True None, Fired 0] idle) = [''blob:a'']
   \<and> revoked (prun [Enqueue ''blob:a'' True None, Fired 0, PlayRejected 0] idle)
       = [''blob:a'', ''blob:a'']
   \<and> map revokeAfter (held (pb (run demoPlatform
         [ClickPlay 0, SpeakSettled 0 (Some ''blob:a'')] initial))) = [True]
   \<and> revoked (pb (run demoPlatform
         [ClickPlay 0, SpeakSettled 0 (Some ''blob:a''), AudioFired 0] initial)) = [''blob:a'']
   \<and> revoked (pb (run demoPlatform
         [ClickPlay 0, SpeakSettled 0 (Some ''blob:a''), AudioFired 0, AudioPlayRejected 0]
         initial)) = [''blob:a'', ''blob:a'']"
  by (simp add: chat_defs playback_defs held_def welcomeText_def)
end
